theory Spec2Isabelle
  imports Main
begin

section \<open>Strings\<close>

text \<open>
  A JavaScript string is modelled by its UTF-8 encoding: a \<open>string\<close> is a list of
  bytes, an ASCII character is one \<open>char\<close>, and a character beyond ASCII is the two to
  four bytes of its encoding. Percent-encoding then works byte by byte, exactly as the
  platform's "UTF-8 percent-encode" does, and a substring search on the bytes finds what
  a search on the characters finds. Strings holding a lone surrogate have no counterpart.
\<close>

definition code :: "char \<Rightarrow> nat" where
  "code c = of_char c"

definition ascii_alpha :: "char \<Rightarrow> bool" where
  "ascii_alpha c = ((65 \<le> code c \<and> code c \<le> 90) \<or> (97 \<le> code c \<and> code c \<le> 122))"

definition ascii_digit :: "char \<Rightarrow> bool" where
  "ascii_digit c = (48 \<le> code c \<and> code c \<le> 57)"

definition ascii_lowercase :: "char \<Rightarrow> char" where
  "ascii_lowercase c = (if 65 \<le> code c \<and> code c \<le> 90 then char_of (code c + 32) else c)"

definition c0_control_or_space :: "char \<Rightarrow> bool" where
  "c0_control_or_space c = (code c \<le> 32)"

definition ascii_tab_or_newline :: "char \<Rightarrow> bool" where
  "ascii_tab_or_newline c = (code c = 9 \<or> code c = 10 \<or> code c = 13)"

definition hex_digit :: "nat \<Rightarrow> char" where
  "hex_digit n = (if n < 10 then char_of (48 + n) else char_of (55 + n))"

definition hex_value :: "char \<Rightarrow> nat option" where
  "hex_value c =
     (if 48 \<le> code c \<and> code c \<le> 57 then Some (code c - 48)
      else if 65 \<le> code c \<and> code c \<le> 70 then Some (code c - 55)
      else if 97 \<le> code c \<and> code c \<le> 102 then Some (code c - 87)
      else None)"

text \<open>\<open>s.includes(c)\<close> for a one-character needle.\<close>

definition str_includes :: "string \<Rightarrow> char \<Rightarrow> bool" where
  "str_includes s c = (c \<in> set s)"

text \<open>
  \<open>s.replace(pattern, replacement)\<close> with a string pattern: the first occurrence only;
  the empty pattern matches at the start.
\<close>

fun replace_first :: "string \<Rightarrow> string \<Rightarrow> string \<Rightarrow> string" where
  "replace_first pat rep [] = (if pat = [] then rep else [])"
| "replace_first pat rep (c # cs) =
     (if take (length pat) (c # cs) = pat then rep @ drop (length pat) (c # cs)
      else c # replace_first pat rep cs)"

text \<open>The part before the first \<open>d\<close>, and the part after it when there is one.\<close>

fun split_first :: "char \<Rightarrow> string \<Rightarrow> string \<times> string option" where
  "split_first d [] = ([], None)"
| "split_first d (c # cs) =
     (if c = d then ([], Some cs)
      else (case split_first d cs of (a, b) \<Rightarrow> (c # a, b)))"

text \<open>The pieces between separators; one more piece than there are separators.\<close>

fun split_on :: "(char \<Rightarrow> bool) \<Rightarrow> string \<Rightarrow> string list" where
  "split_on sep [] = [[]]"
| "split_on sep (c # cs) =
     (if sep c then [] # split_on sep cs
      else (case split_on sep cs of
              [] \<Rightarrow> [[c]]
            | s # ss \<Rightarrow> (c # s) # ss))"

section \<open>The platform's URL class\<close>

text \<open>
  \<open>createLocation\<close>, \<open>prepareUrl\<close> and \<open>prepareState\<close> hand their strings to the
  platform's \<open>URL\<close> class and read \<open>pathname\<close>, \<open>search\<close> and \<open>hash\<close> back. The class
  is not code of this repository; it is modelled here after the WHATWG URL Standard's
  basic URL parser, state by state, with these limits:
  \<^item> an authority (\<open>//user@host:port\<close>) is carried as written: credentials, ports,
    IP addresses and forbidden host characters are not examined, and only the empty
    host of a special scheme is refused; the program never reads the host;
  \<^item> URLs of the \<open>file\<close> scheme are refused;
  \<^item> a query is encoded as UTF-8.
\<close>

datatype error =
    TypeError_Invalid_URL
  | TypeError_undefined
  | URIError_malformed
  | Error string

record url =
  url_scheme :: string
  url_host :: "string option"
  url_opaque :: bool
  url_path :: "string list"
  url_query :: "string option"
  url_fragment :: "string option"

definition percent_encode_byte :: "char \<Rightarrow> string" where
  "percent_encode_byte c = [CHR ''%'', hex_digit (code c div 16), hex_digit (code c mod 16)]"

definition c0_control_set :: "char \<Rightarrow> bool" where
  "c0_control_set c = (code c \<le> 31 \<or> 126 < code c)"

definition fragment_set :: "char \<Rightarrow> bool" where
  "fragment_set c = (c0_control_set c \<or> c \<in> set [CHR '' '', CHR 0x22, CHR ''<'', CHR ''>'', CHR 0x60])"

definition query_set :: "char \<Rightarrow> bool" where
  "query_set c = (c0_control_set c \<or> c \<in> set [CHR '' '', CHR 0x22, CHR ''#'', CHR ''<'', CHR ''>''])"

definition special_query_set :: "char \<Rightarrow> bool" where
  "special_query_set c = (query_set c \<or> c = CHR 0x27)"

definition path_set :: "char \<Rightarrow> bool" where
  "path_set c = (query_set c \<or> c \<in> set [CHR ''?'', CHR 0x60, CHR ''{'', CHR ''}''])"

definition utf8_percent_encode :: "(char \<Rightarrow> bool) \<Rightarrow> string \<Rightarrow> string" where
  "utf8_percent_encode S s = concat (map (\<lambda>c. if S c then percent_encode_byte c else [c]) s)"

definition is_special :: "string \<Rightarrow> bool" where
  "is_special sch = (sch \<in> set [''ftp'', ''file'', ''http'', ''https'', ''ws'', ''wss''])"

definition strip_input :: "string \<Rightarrow> string" where
  "strip_input s =
     filter (\<lambda>c. \<not> ascii_tab_or_newline c)
       (rev (dropWhile c0_control_or_space (rev (dropWhile c0_control_or_space s))))"

definition scheme_char :: "char \<Rightarrow> bool" where
  "scheme_char c = (ascii_alpha c \<or> ascii_digit c \<or> c \<in> set [CHR ''+'', CHR ''-'', CHR ''.''])"

text \<open>Scheme start state and scheme state: the lower-cased scheme and what follows the colon.\<close>

definition scheme_of :: "string \<Rightarrow> (string \<times> string) option" where
  "scheme_of s =
     (case s of
        [] \<Rightarrow> None
      | c # cs \<Rightarrow>
          if ascii_alpha c then
            (case dropWhile scheme_char cs of
               [] \<Rightarrow> None
             | d # rest \<Rightarrow>
                 if d = CHR '':'' then Some (map ascii_lowercase (c # takeWhile scheme_char cs), rest)
                 else None)
          else None)"

definition single_dot :: "string \<Rightarrow> bool" where
  "single_dot s = (map ascii_lowercase s \<in> set [''.'', ''%2e''])"

definition double_dot :: "string \<Rightarrow> bool" where
  "double_dot s = (map ascii_lowercase s \<in> set [''..'', ''.%2e'', ''%2e.'', ''%2e%2e''])"

definition is_slash :: "bool \<Rightarrow> char \<Rightarrow> bool" where
  "is_slash special c = (c = CHR ''/'' \<or> (special \<and> c = CHR 0x5C))"

text \<open>
  Path state, one segment at a time: the segment that ends the path (followed by the end
  of input, \<open>?\<close> or \<open>#\<close>) leaves an empty segment behind when it is a dot segment.
\<close>

fun path_segments :: "string list \<Rightarrow> string list \<Rightarrow> string list" where
  "path_segments p [] = p"
| "path_segments p [s] =
     (let buffer = utf8_percent_encode path_set s in
      if double_dot buffer then butlast p @ [[]]
      else if single_dot buffer then p @ [[]]
      else p @ [buffer])"
| "path_segments p (s # ss) =
     (let buffer = utf8_percent_encode path_set s in
      if double_dot buffer then path_segments (butlast p) ss
      else if single_dot buffer then path_segments p ss
      else path_segments (p @ [buffer]) ss)"

definition path_state :: "bool \<Rightarrow> string list \<Rightarrow> string \<Rightarrow> string list" where
  "path_state special p t = path_segments p (split_on (is_slash special) t)"

text \<open>Authority state up to path start state; \<open>t\<close> begins at the host.\<close>

definition after_authority ::
  "string \<Rightarrow> string \<Rightarrow> string option \<Rightarrow> string option \<Rightarrow> url option" where
  "after_authority sch t q f =
     (let special = is_special sch;
          h = takeWhile (\<lambda>c. \<not> is_slash special c) t;
          r = dropWhile (\<lambda>c. \<not> is_slash special c) t
      in if special \<and> h = [] then None
         else Some \<lparr>url_scheme = sch, url_host = Some h, url_opaque = False,
                    url_path = (if special then path_state True [] (drop 1 r)
                                else if r = [] then []
                                else path_state False [] (drop 1 r)),
                    url_query = q, url_fragment = f\<rparr>)"

text \<open>Relative state and relative slash state, against a base with a hierarchical path.\<close>

definition relative_url ::
  "url \<Rightarrow> string \<Rightarrow> string option \<Rightarrow> string option \<Rightarrow> url option" where
  "relative_url b t q f =
     (let special = is_special (url_scheme b) in
      case t of
        [] \<Rightarrow> Some (b\<lparr>url_query := (if q = None then url_query b else q), url_fragment := f\<rparr>)
      | c # r \<Rightarrow>
          if is_slash special c then
            (if special \<and> r \<noteq> [] \<and> is_slash True (hd r)
               then after_authority (url_scheme b) (dropWhile (is_slash True) r) q f
             else if r \<noteq> [] \<and> hd r = CHR ''/''
               then after_authority (url_scheme b) (tl r) q f
             else Some (b\<lparr>url_path := path_state special [] r,
                          url_query := q, url_fragment := f\<rparr>))
          else Some (b\<lparr>url_path := path_state special (butlast (url_path b)) t,
                       url_query := q, url_fragment := f\<rparr>))"

definition parse_with_scheme ::
  "string \<Rightarrow> string \<Rightarrow> string option \<Rightarrow> string option \<Rightarrow> url option \<Rightarrow> url option" where
  "parse_with_scheme sch rest q f base =
     (if sch = ''file'' then None
      else if is_special sch then
        (case base of
           None \<Rightarrow> after_authority sch (dropWhile (is_slash True) rest) q f
         | Some b \<Rightarrow>
             if url_scheme b = sch \<and> take 2 rest \<noteq> ''//'' then relative_url b rest q f
             else after_authority sch (dropWhile (is_slash True) rest) q f)
      else if take 2 rest = ''//'' then after_authority sch (drop 2 rest) q f
      else if take 1 rest = ''/'' then
        Some \<lparr>url_scheme = sch, url_host = None, url_opaque = False,
              url_path = path_state False [] (drop 1 rest),
              url_query = q, url_fragment = f\<rparr>
      else
        Some \<lparr>url_scheme = sch, url_host = None, url_opaque = True,
              url_path = [utf8_percent_encode c0_control_set rest],
              url_query = q, url_fragment = f\<rparr>)"

definition parse_no_scheme ::
  "string \<Rightarrow> string option \<Rightarrow> string option \<Rightarrow> url option \<Rightarrow> url option" where
  "parse_no_scheme hier q f base =
     (case base of
        None \<Rightarrow> None
      | Some b \<Rightarrow>
          if url_opaque b then
            (if hier = [] \<and> q = None \<and> f \<noteq> None then Some (b\<lparr>url_fragment := f\<rparr>) else None)
          else if url_scheme b = ''file'' then None
          else relative_url b hier q f)"

definition query_encode :: "string \<Rightarrow> string \<Rightarrow> string" where
  "query_encode sch q =
     utf8_percent_encode (if is_special sch then special_query_set else query_set) q"

definition url_parse :: "string \<Rightarrow> url option \<Rightarrow> url option" where
  "url_parse input base =
     (let s = strip_input input;
          body = fst (split_first CHR ''#'' s);
          f = map_option (utf8_percent_encode fragment_set) (snd (split_first CHR ''#'' s));
          hier = fst (split_first CHR ''?'' body);
          q_raw = snd (split_first CHR ''?'' body)
      in case scheme_of hier of
           Some (sch, rest) \<Rightarrow>
             parse_with_scheme sch rest (map_option (query_encode sch) q_raw) f base
         | None \<Rightarrow>
             parse_no_scheme hier
               (map_option (query_encode (case base of None \<Rightarrow> [] | Some b \<Rightarrow> url_scheme b)) q_raw)
               f base)"

text \<open>\<open>new URL(input)\<close> and \<open>new URL(input, base)\<close>: a string that does not parse throws.\<close>

definition URL :: "string \<Rightarrow> string option \<Rightarrow> error + url" where
  "URL input base =
     (case base of
        None \<Rightarrow>
          (case url_parse input None of
             None \<Rightarrow> Inl TypeError_Invalid_URL
           | Some u \<Rightarrow> Inr u)
      | Some b \<Rightarrow>
          (case url_parse b None of
             None \<Rightarrow> Inl TypeError_Invalid_URL
           | Some bu \<Rightarrow>
               (case url_parse input (Some bu) of
                  None \<Rightarrow> Inl TypeError_Invalid_URL
                | Some u \<Rightarrow> Inr u)))"

definition url_pathname :: "url \<Rightarrow> string" where
  "url_pathname u =
     (if url_opaque u then concat (url_path u)
      else concat (map (\<lambda>s. CHR ''/'' # s) (url_path u)))"

definition url_search :: "url \<Rightarrow> string" where
  "url_search u = (case url_query u of None \<Rightarrow> [] | Some q \<Rightarrow> if q = [] then [] else CHR ''?'' # q)"

definition url_hash :: "url \<Rightarrow> string" where
  "url_hash u = (case url_fragment u of None \<Rightarrow> [] | Some f \<Rightarrow> if f = [] then [] else CHR ''#'' # f)"

definition url_href :: "url \<Rightarrow> string" where
  "url_href u =
     url_scheme u @ '':''
     @ (case url_host u of
          Some h \<Rightarrow> ''//'' @ h
        | None \<Rightarrow> if \<not> url_opaque u \<and> 1 < length (url_path u) \<and> hd (url_path u) = []
                  then ''/.'' else [])
     @ url_pathname u
     @ (case url_query u of None \<Rightarrow> [] | Some q \<Rightarrow> CHR ''?'' # q)
     @ (case url_fragment u of None \<Rightarrow> [] | Some f \<Rightarrow> CHR ''#'' # f)"


section \<open>\<open>decodeURIComponent\<close>\<close>

text \<open>
  Every \<open>%XX\<close> becomes its byte; a \<open>%\<close> without two hexadecimal digits, or escaped
  bytes that are not the UTF-8 encoding of a code point directly followed by its escaped
  continuation bytes, throw a URIError. The flag of a byte records that it was escaped.
\<close>

fun percent_decode :: "string \<Rightarrow> (char \<times> bool) list option" where
  "percent_decode [] = Some []"
| "percent_decode (c # cs) =
     (if c = CHR ''%'' then
        (case cs of
           h1 # h2 # rest \<Rightarrow>
             (case (hex_value h1, hex_value h2) of
                (Some a, Some b) \<Rightarrow>
                  map_option (\<lambda>xs. (char_of (16 * a + b), True) # xs) (percent_decode rest)
              | _ \<Rightarrow> None)
         | _ \<Rightarrow> None)
      else map_option (\<lambda>xs. (c, False) # xs) (percent_decode cs))"

text \<open>
  \<open>need\<close> continuation bytes are still owed; the next one must lie in \<open>lo..hi\<close>
  (the bounds that exclude overlong forms, surrogates and code points above U+10FFFF).
\<close>

fun utf8_wellformed :: "nat \<Rightarrow> nat \<Rightarrow> nat \<Rightarrow> (char \<times> bool) list \<Rightarrow> bool" where
  "utf8_wellformed need lo hi [] = (need = 0)"
| "utf8_wellformed need lo hi ((c, escaped) # xs) =
     (if 0 < need then
        escaped \<and> lo \<le> code c \<and> code c \<le> hi \<and> utf8_wellformed (need - 1) 128 191 xs
      else if \<not> escaped \<or> code c < 128 then utf8_wellformed 0 128 191 xs
      else if 194 \<le> code c \<and> code c \<le> 223 then utf8_wellformed 1 128 191 xs
      else if code c = 224 then utf8_wellformed 2 160 191 xs
      else if code c = 237 then utf8_wellformed 2 128 159 xs
      else if 225 \<le> code c \<and> code c \<le> 239 then utf8_wellformed 2 128 191 xs
      else if code c = 240 then utf8_wellformed 3 144 191 xs
      else if 241 \<le> code c \<and> code c \<le> 243 then utf8_wellformed 3 128 191 xs
      else if code c = 244 then utf8_wellformed 3 128 143 xs
      else False)"

definition decodeURIComponent :: "string \<Rightarrow> error + string" where
  "decodeURIComponent s =
     (case percent_decode s of
        None \<Rightarrow> Inl URIError_malformed
      | Some xs \<Rightarrow> if utf8_wellformed 0 128 191 xs then Inr (map fst xs) else Inl URIError_malformed)"

section \<open>Locations\<close>

text \<open>
  The navigation state a caller attaches to an entry is opaque to the program; only the
  memory driver's envelope \<open>{IS_MEMORY_HISTORY_STATE: true, state, href}\<close> is looked
  into. An \<open>Object\<close> stands for any other value, told apart by reference.
\<close>

datatype any =
    Undefined
  | Null
  | Object nat
  | Memory_State any string

text \<open>
  A \<open>Location\<close> is a fresh object each time \<open>createLocation\<close> runs; \<open>ref\<close> is the
  address it is allocated at, so that \<open>===\<close> on locations is equality of \<open>ref\<close>.
  \<open>searchParams\<close>, a view of \<open>search\<close>, is left out.
\<close>

record Location =
  ref :: nat
  href :: string
  path :: string
  search :: string
  hash :: string
  state :: any

text \<open>\<open>.replace(/\/+/g, '/')\<close>: every run of slashes becomes one slash.\<close>

fun remove_duplicate_slashes :: "string \<Rightarrow> string" where
  "remove_duplicate_slashes (c # d # cs) =
     (if c = CHR ''/'' \<and> d = CHR ''/'' then remove_duplicate_slashes (d # cs)
      else c # remove_duplicate_slashes (d # cs))"
| "remove_duplicate_slashes cs = cs"

text \<open>
  \<open>.replace(/.\/+$/, '')\<close>: the leftmost place where one character other than a line
  terminator is followed by slashes up to the end; the match, that character included,
  is cut.
\<close>

definition line_terminator :: "char \<Rightarrow> bool" where
  "line_terminator c = (code c = 10 \<or> code c = 13)"

fun remove_trailing_slash :: "string \<Rightarrow> string" where
  "remove_trailing_slash [] = []"
| "remove_trailing_slash (c # cs) =
     (if \<not> line_terminator c \<and> cs \<noteq> [] \<and> filter (\<lambda>x. x \<noteq> CHR ''/'') cs = [] then []
      else c # remove_trailing_slash cs)"

definition createLocation :: "nat \<Rightarrow> string \<Rightarrow> any \<Rightarrow> error + Location" where
  "createLocation a h st =
     (case URL (if str_includes h CHR '':'' then h else ''pr:'' @ h) None of
        Inl e \<Rightarrow> Inl e
      | Inr u \<Rightarrow>
          let p = remove_trailing_slash (remove_duplicate_slashes (CHR ''/'' # url_pathname u))
          in Inr \<lparr>ref = a, href = p @ url_search u @ url_hash u, path = p,
                  search = url_search u, hash = url_hash u, state = st\<rparr>)"

section \<open>Navigation surfaces\<close>

text \<open>
  The two implementations of \<open>WindowSubset\<close> in the repository share their code but
  for what an entry keeps as its location: \<open>createMockedWindow\<close> keeps the string it was
  given (\<open>Href\<close>), the test suite's \<open>createWindowSubset\<close> keeps the \<open>URL\<close> object that
  the string resolves to (\<open>Url\<close>). \<open>entries\<close> is the array \<open>history\<close> (\<open>None\<close> is a
  hole, left by a write past the end), \<open>index\<close> the cursor, \<open>popstate_listeners\<close> the
  set \<open>listeners\<close> in insertion order.
\<close>

datatype entry_location = Href string | Url url

datatype callback = HandlePop | Foreign nat

record WindowSubset =
  entries :: "(entry_location \<times> any) option list"
  index :: nat
  popstate_listeners :: "callback list"

definition array_get :: "'a option list \<Rightarrow> nat \<Rightarrow> 'a option" where
  "array_get xs i = (if i < length xs then xs ! i else None)"

definition array_set :: "'a option list \<Rightarrow> nat \<Rightarrow> 'a \<Rightarrow> 'a option list" where
  "array_set xs i v =
     (if i < length xs then xs[i := Some v]
      else xs @ replicate (i - length xs) None @ [Some v])"

definition createMockedWindow :: "string \<Rightarrow> WindowSubset" where
  "createMockedWindow initial =
     \<lparr>entries = [Some (Href initial, Undefined)], index = 0, popstate_listeners = []\<rparr>"

definition createWindowSubset :: "string \<Rightarrow> error + WindowSubset" where
  "createWindowSubset initial =
     (case URL initial (Some ''https://example.com'') of
        Inl e \<Rightarrow> Inl e
      | Inr u \<Rightarrow> Inr \<lparr>entries = [Some (Url u, Undefined)], index = 0, popstate_listeners = []\<rparr>)"

text \<open>\<open>history[i]![0]\<close>: reading the location of a missing entry is a TypeError.\<close>

definition entry_location_at :: "WindowSubset \<Rightarrow> nat \<Rightarrow> error + entry_location" where
  "entry_location_at w i =
     (case array_get (entries w) i of
        None \<Rightarrow> Inl TypeError_undefined
      | Some (l, st) \<Rightarrow> Inr l)"


definition location_hash :: "WindowSubset \<Rightarrow> error + string" where
  "location_hash w =
     (case entry_location_at w (index w) of
        Inl e \<Rightarrow> Inl e
      | Inr (Href s) \<Rightarrow> Inr ''#''
      | Inr (Url u) \<Rightarrow> Inr (url_hash u))"

text \<open>\<open>history.length\<close> and \<open>history.state\<close> (\<open>history[index]?.[1]\<close>).\<close>

definition history_length :: "WindowSubset \<Rightarrow> nat" where
  "history_length w = length (entries w)"

definition history_state :: "WindowSubset \<Rightarrow> any" where
  "history_state w =
     (case array_get (entries w) (index w) of
        None \<Rightarrow> Undefined
      | Some (l, st) \<Rightarrow> st)"

text \<open>
  The location of the entry that \<open>pushState\<close> and \<open>replaceState\<close> write, given the
  location \<open>prev\<close> of the last entry of the array (not of the entry under the cursor):
  the one passed when it is a non-empty string, else \<open>prev\<close>. \<open>createWindowSubset\<close>
  resolves a passed location against \<open>prev\<close>, which can throw.
\<close>

definition resolve_location :: "entry_location \<Rightarrow> string option \<Rightarrow> error + entry_location" where
  "resolve_location prev loc =
     (case prev of
        Href s \<Rightarrow>
          (case loc of
             None \<Rightarrow> Inr (Href s)
           | Some l \<Rightarrow> if l = [] then Inr (Href s) else Inr (Href l))
      | Url u \<Rightarrow>
          (case loc of
             None \<Rightarrow> Inr (Url u)
           | Some l \<Rightarrow>
               if l = [] then Inr (Url u)
               else (case URL l (Some (url_href u)) of
                       Inl e \<Rightarrow> Inl e
                     | Inr u' \<Rightarrow> Inr (Url u'))))"

text \<open>
  Which of the two implementations a window belongs to is read off its last entry.
  Without a last entry, a state that no call brings about, both are taken to throw on
  reading it.
\<close>

definition new_entry_location :: "WindowSubset \<Rightarrow> string option \<Rightarrow> error + entry_location" where
  "new_entry_location w loc =
     (case entry_location_at w (length (entries w) - 1) of
        Inl e \<Rightarrow> Inl e
      | Inr prev \<Rightarrow> resolve_location prev loc)"

text \<open>
  \<open>history.splice(++index, Infinity, entry)\<close>: the cursor is advanced before the entry
  is built, so a location that does not resolve leaves the advanced cursor behind.
\<close>

definition pushState :: "any \<Rightarrow> string option \<Rightarrow> WindowSubset \<Rightarrow> WindowSubset \<times> error option" where
  "pushState st loc w =
     (case entry_location_at w (length (entries w) - 1) of
        Inl e \<Rightarrow> (w, Some e)
      | Inr prev \<Rightarrow>
          (case resolve_location prev loc of
             Inl e \<Rightarrow> (w\<lparr>index := index w + 1\<rparr>, Some e)
           | Inr l \<Rightarrow>
               (w\<lparr>entries := take (index w + 1) (entries w) @ [Some (l, st)],
                  index := index w + 1\<rparr>, None)))"

definition replaceState :: "any \<Rightarrow> string option \<Rightarrow> WindowSubset \<Rightarrow> WindowSubset \<times> error option" where
  "replaceState st loc w =
     (case new_entry_location w loc of
        Inl e \<Rightarrow> (w, Some e)
      | Inr l \<Rightarrow> (w\<lparr>entries := array_set (entries w) (index w) (l, st)\<rparr>, None))"

text \<open>
  \<open>history.go(delta)\<close>: the new window and the listeners it calls, in order. The
  argument is an integer or missing.
\<close>

definition history_go :: "int option \<Rightarrow> WindowSubset \<Rightarrow> WindowSubset \<times> callback list" where
  "history_go delta w =
     (case delta of
        None \<Rightarrow> (w, [])
      | Some d \<Rightarrow>
          let i = nat (max 0 (min (int (length (entries w)) - 1) (int (index w) + d)))
          in (w\<lparr>index := i\<rparr>, if i \<noteq> index w then popstate_listeners w else []))"

definition addEventListener :: "string \<Rightarrow> callback \<Rightarrow> WindowSubset \<Rightarrow> WindowSubset" where
  "addEventListener name cb w =
     (if name = ''popstate'' \<and> cb \<notin> set (popstate_listeners w)
      then w\<lparr>popstate_listeners := popstate_listeners w @ [cb]\<rparr> else w)"

definition removeEventListener :: "string \<Rightarrow> callback \<Rightarrow> WindowSubset \<Rightarrow> WindowSubset" where
  "removeEventListener name cb w =
     (if name = ''popstate''
      then w\<lparr>popstate_listeners := filter (\<lambda>x. x \<noteq> cb) (popstate_listeners w)\<rparr> else w)"


section \<open>The history engine\<close>

datatype action = POP | PUSH | REPLACE

text \<open>The argument \<open>{action, location, from}\<close> a listener is called with.\<close>

record change =
  change_action :: action
  change_location :: Location
  change_from :: "Location option"

text \<open>
  A driver's \<open>getLocation\<close> builds a new \<open>Location\<close> object; its first argument is the
  address the object is allocated at.
\<close>

record HistoryDriver =
  getLocation :: "nat \<Rightarrow> WindowSubset \<Rightarrow> error + Location"
  prepareUrl :: "string \<Rightarrow> Location \<Rightarrow> error + string option"
  prepareState :: "any \<Rightarrow> string \<Rightarrow> Location \<Rightarrow> error + any"

text \<open>
  The closure of \<open>createHistory\<close>: the window it holds, the variables \<open>location\<close> and
  \<open>from\<close>, the set \<open>listeners\<close> in insertion order (a listener is a number, told apart
  by identity). \<open>next_ref\<close> is the next free address, and \<open>notified\<close> records every call
  of a listener, oldest first, with the argument it received. Listeners only observe:
  they neither throw nor call back into the engine.
\<close>

record History =
  window :: WindowSubset
  location :: Location
  from_location :: "Location option"
  listeners :: "nat list"
  next_ref :: nat
  notified :: "(nat \<times> change) list"

text \<open>
  An operation returns the state it leaves behind and the error it threw, if any: what
  was assigned before a throw stays assigned.
\<close>

definition triggerChange :: "HistoryDriver \<Rightarrow> action \<Rightarrow> History \<Rightarrow> History \<times> error option" where
  "triggerChange d act h =
     (case getLocation d (next_ref h) (window h) of
        Inl e \<Rightarrow> (h\<lparr>from_location := Some (location h)\<rparr>, Some e)
      | Inr l \<Rightarrow>
          (h\<lparr>location := l,
             from_location := Some (location h),
             next_ref := next_ref h + 1,
             notified := notified h
               @ map (\<lambda>x. (x, \<lparr>change_action = act, change_location = l,
                                change_from = Some (location h)\<rparr>)) (listeners h)\<rparr>,
           None))"

definition createHistory :: "WindowSubset \<Rightarrow> HistoryDriver \<Rightarrow> error + History" where
  "createHistory w d =
     (case getLocation d 0 w of
        Inl e \<Rightarrow> Inl e
      | Inr l \<Rightarrow>
          Inr \<lparr>window = addEventListener ''popstate'' HandlePop w, location = l,
                from_location = None, listeners = [], next_ref = 1, notified = []\<rparr>)"

definition push :: "HistoryDriver \<Rightarrow> string \<Rightarrow> any \<Rightarrow> History \<Rightarrow> History \<times> error option" where
  "push d to st h =
     (case prepareState d st to (location h) of
        Inl e \<Rightarrow> (h, Some e)
      | Inr s \<Rightarrow>
          (case prepareUrl d to (location h) of
             Inl e \<Rightarrow> (h, Some e)
           | Inr u \<Rightarrow>
               (case pushState s u (window h) of
                  (w, Some e) \<Rightarrow> (h\<lparr>window := w\<rparr>, Some e)
                | (w, None) \<Rightarrow> triggerChange d PUSH (h\<lparr>window := w\<rparr>))))"

definition replace :: "HistoryDriver \<Rightarrow> string \<Rightarrow> any \<Rightarrow> History \<Rightarrow> History \<times> error option" where
  "replace d to st h =
     (case prepareState d st to (location h) of
        Inl e \<Rightarrow> (h, Some e)
      | Inr s \<Rightarrow>
          (case prepareUrl d to (location h) of
             Inl e \<Rightarrow> (h, Some e)
           | Inr u \<Rightarrow>
               (case replaceState s u (window h) of
                  (w, Some e) \<Rightarrow> (h\<lparr>window := w\<rparr>, Some e)
                | (w, None) \<Rightarrow> triggerChange d REPLACE (h\<lparr>window := w\<rparr>))))"

text \<open>
  \<open>window.history.go(delta)\<close>, whoever calls it: the window calls its listeners before
  it returns, and the engine's \<open>handlePop\<close> is one of them until \<open>destroy\<close>.
\<close>

definition go :: "HistoryDriver \<Rightarrow> int option \<Rightarrow> History \<Rightarrow> History \<times> error option" where
  "go d delta h =
     (case history_go delta (window h) of
        (w, called) \<Rightarrow>
          if HandlePop \<in> set called then triggerChange d POP (h\<lparr>window := w\<rparr>)
          else (h\<lparr>window := w\<rparr>, None))"

text \<open>\<open>back\<close> and \<open>forward\<close>.\<close>

definition go_back :: "HistoryDriver \<Rightarrow> History \<Rightarrow> History \<times> error option" where
  "go_back d h = go d (Some (- 1)) h"

definition go_forward :: "HistoryDriver \<Rightarrow> History \<Rightarrow> History \<times> error option" where
  "go_forward d h = go d (Some 1) h"

definition subscribe :: "nat \<Rightarrow> History \<Rightarrow> History" where
  "subscribe l h =
     (if l \<in> set (listeners h) then h else h\<lparr>listeners := listeners h @ [l]\<rparr>)"

definition unsubscribe :: "nat \<Rightarrow> History \<Rightarrow> History" where
  "unsubscribe l h = h\<lparr>listeners := filter (\<lambda>x. x \<noteq> l) (listeners h)\<rparr>"

definition destroy :: "History \<Rightarrow> History" where
  "destroy h =
     h\<lparr>window := removeEventListener ''popstate'' HandlePop (window h), listeners := []\<rparr>"

text \<open>The getter \<open>length\<close> of the engine.\<close>

definition length_of :: "History \<Rightarrow> nat" where
  "length_of h = history_length (window h)"

section \<open>The three drivers\<close>



definition hash_getLocation :: "string \<Rightarrow> nat \<Rightarrow> WindowSubset \<Rightarrow> error + Location" where
  "hash_getLocation hashSubstitute a w =
     (case location_hash w of
        Inl e \<Rightarrow> Inl e
      | Inr s \<Rightarrow>
          (case decodeURIComponent (drop 1 s) of
             Inl e \<Rightarrow> Inl e
           | Inr t \<Rightarrow> createLocation a (replace_first hashSubstitute ''#'' t) (history_state w)))"

definition hash_prepareUrl :: "string \<Rightarrow> string \<Rightarrow> Location \<Rightarrow> error + string option" where
  "hash_prepareUrl hashSubstitute to l =
     (case URL to (Some (''http://h.com'' @ href l)) of
        Inl e \<Rightarrow> Inl e
      | Inr u \<Rightarrow>
          Inr (Some (''#'' @ url_pathname u @ url_search u
                     @ (if 1 < length (url_hash u) then hashSubstitute @ drop 1 (url_hash u)
                        else []))))"

definition hash_driver :: "string \<Rightarrow> HistoryDriver" where
  "hash_driver hashSubstitute =
     \<lparr>getLocation = hash_getLocation hashSubstitute,
      prepareUrl = hash_prepareUrl hashSubstitute,
      prepareState = (\<lambda>st to l. Inr st)\<rparr>"

text \<open>
  The methods of the object that \<open>createHistory\<close> returns are closed over the driver;
  here they take it as their first argument. The browser driver and the memory driver
  are constants. The hash driver is made from \<open>hashSubstitute\<close>, so
  \<open>createHashHistory\<close> returns it with the state of the engine: the pair is the
  \<open>History\<close> object of the source, its methods and what they are closed over. The
  default substitute is U+FF03, the full width number sign.
\<close>

definition createHashHistory ::
  "string option \<Rightarrow> WindowSubset \<Rightarrow> error + HistoryDriver \<times> History" where
  "createHashHistory hashSubstitute w =
     (let d = hash_driver (case hashSubstitute of
                             None \<Rightarrow> [CHR 0xEF, CHR 0xBC, CHR 0x83]
                           | Some s \<Rightarrow> s)
      in case createHistory w d of
           Inl e \<Rightarrow> Inl e
         | Inr h \<Rightarrow> Inr (d, h))"

definition memory_prepareState :: "any \<Rightarrow> string \<Rightarrow> Location option \<Rightarrow> error + any" where
  "memory_prepareState st to current =
     (case URL to (Some (''https://m.com'' @ (case current of None \<Rightarrow> [] | Some l \<Rightarrow> href l))) of
        Inl e \<Rightarrow> Inl e
      | Inr u \<Rightarrow> Inr (Memory_State st (url_pathname u @ url_search u @ url_hash u)))"

definition memory_getLocation :: "nat \<Rightarrow> WindowSubset \<Rightarrow> error + Location" where
  "memory_getLocation a w =
     (case history_state w of
        Memory_State st h \<Rightarrow> createLocation a h st
      | _ \<Rightarrow> Inl (Error ''navigation out of memory history''))"

definition memory_driver :: HistoryDriver where
  "memory_driver =
     \<lparr>getLocation = memory_getLocation,
      prepareUrl = (\<lambda>to l. Inr None),
      prepareState = (\<lambda>st to l. memory_prepareState st to (Some l))\<rparr>"

text \<open>
  \<open>initial\<close> defaults to \<open>'/'\<close> and \<open>window\<close> to a new mocked window. The initial
  location is written into the entry under the cursor before the engine is built.
\<close>

definition createMemoryHistory :: "string option \<Rightarrow> WindowSubset option \<Rightarrow> error + History" where
  "createMemoryHistory initial win =
     (case memory_prepareState Null (case initial of None \<Rightarrow> ''/'' | Some i \<Rightarrow> i) None of
        Inl e \<Rightarrow> Inl e
      | Inr s \<Rightarrow>
          (case replaceState s (Some [])
                  (case win of None \<Rightarrow> createMockedWindow ''/'' | Some w \<Rightarrow> w) of
             (w, Some e) \<Rightarrow> Inl e
           | (w, None) \<Rightarrow> createHistory w memory_driver))"

section \<open>Sequences of calls\<close>

text \<open>
  What a caller, or anyone else holding the window, can do next. A caller that catches
  an error goes on with the state the failed call left.
\<close>

datatype operation =
    Push string any
  | Replace string any
  | Go "int option"
  | Back
  | Forward
  | Subscribe nat
  | Unsubscribe nat
  | Destroy
  | Window_pushState any "string option"
  | Window_replaceState any "string option"
  | Window_go "int option"

fun perform :: "HistoryDriver \<Rightarrow> operation \<Rightarrow> History \<Rightarrow> History \<times> error option" where
  "perform d (Push to st) h = push d to st h"
| "perform d (Replace to st) h = replace d to st h"
| "perform d (Go delta) h = go d delta h"
| "perform d Back h = go_back d h"
| "perform d Forward h = go_forward d h"
| "perform d (Subscribe l) h = (subscribe l h, None)"
| "perform d (Unsubscribe l) h = (unsubscribe l h, None)"
| "perform d Destroy h = (destroy h, None)"
| "perform d (Window_pushState st loc) h =
     (h\<lparr>window := fst (pushState st loc (window h))\<rparr>, snd (pushState st loc (window h)))"
| "perform d (Window_replaceState st loc) h =
     (h\<lparr>window := fst (replaceState st loc (window h))\<rparr>, snd (replaceState st loc (window h)))"
| "perform d (Window_go delta) h = go d delta h"

fun run :: "HistoryDriver \<Rightarrow> operation list \<Rightarrow> History \<Rightarrow> History" where
  "run d [] h = h"
| "run d (x # xs) h = run d xs (fst (perform d x h))"


section \<open>Vocabulary of the properties\<close>

text \<open>The notifications delivered between an earlier state and a later one.\<close>

definition news :: "History \<Rightarrow> History \<Rightarrow> (nat \<times> change) list" where
  "news h h' = drop (length (notified h)) (notified h')"

text \<open>The notifications one listener has received so far.\<close>

definition received :: "nat \<Rightarrow> History \<Rightarrow> (nat \<times> change) list" where
  "received l h = filter (\<lambda>n. fst n = l) (notified h)"

text \<open>\<open>clamp(cursor + delta, 0, length - 1)\<close> as the specification words it.\<close>

definition clamp :: "int \<Rightarrow> int \<Rightarrow> int \<Rightarrow> int" where
  "clamp x lo hi = (if x < lo then lo else if hi < x then hi else x)"

definition clamped_target :: "WindowSubset \<Rightarrow> int \<Rightarrow> nat" where
  "clamped_target w delta = nat (clamp (int (index w) + delta) 0 (int (length (entries w)) - 1))"

text \<open>The truthiness of \<open>winState?.IS_MEMORY_HISTORY_STATE\<close>.\<close>

fun IS_MEMORY_HISTORY_STATE :: "any \<Rightarrow> bool" where
  "IS_MEMORY_HISTORY_STATE (Memory_State st h) = True"
| "IS_MEMORY_HISTORY_STATE v = False"

text \<open>A memory engine with one subscriber, on its own mocked window.\<close>

definition example_engine :: History where
  "example_engine = subscribe 7 (projr (createMemoryHistory None None))"

definition example_pushed :: History where
  "example_pushed = fst (push memory_driver ''/foo'' Undefined example_engine)"

definition example_window :: WindowSubset where
  "example_window =
     \<lparr>entries = [Some (Href ''/'', Undefined), Some (Href ''/a'', Null), Some (Href ''/b'', Null)],
      index = 2, popstate_listeners = [HandlePop, Foreign 3]\<rparr>"

text \<open>What every notification of one call must carry.\<close>

definition delivered_ok :: "action \<Rightarrow> History \<Rightarrow> History \<Rightarrow> bool" where
  "delivered_ok act h h' =
     (notified h' = notified h @ news h h' \<and>
      (\<forall>n \<in> set (news h h').
          fst n \<in> set (listeners h) \<and>
          change_action (snd n) = act \<and>
          change_location (snd n) = location h' \<and>
          change_from (snd n) = Some (location h) \<and>
          from_location h' = Some (location h)))"

text \<open>The action a notification carries is the one of the call that caused it.\<close>

fun action_of :: "operation \<Rightarrow> action" where
  "action_of (Push to st) = PUSH"
| "action_of (Replace to st) = REPLACE"
| "action_of x = POP"

text \<open>
  The normalization of a pathname as the specification words it: prepend \<open>/\<close> if
  absent, collapse consecutive \<open>/\<close> into one, strip a single trailing \<open>/\<close> unless
  the whole path is \<open>/\<close>.
\<close>

definition prepend_slash_if_absent :: "string \<Rightarrow> string" where
  "prepend_slash_if_absent p = (if take 1 p = ''/'' then p else CHR ''/'' # p)"

definition strip_single_trailing_slash :: "string \<Rightarrow> string" where
  "strip_single_trailing_slash p =
     (if p \<noteq> [] \<and> p \<noteq> ''/'' \<and> last p = CHR ''/'' then butlast p else p)"

definition normalized_as_specified :: "string \<Rightarrow> string" where
  "normalized_as_specified p =
     strip_single_trailing_slash (remove_duplicate_slashes (prepend_slash_if_absent p))"

text \<open>
  Paths that \<open>createLocation\<close> returns as they are: \<open>/\<close> alone, or non-empty
  segments, each led by \<open>/\<close>, of characters that the URL parser keeps unescaped in a
  path, none of them \<open>:\<close>, and no segment a dot segment.
\<close>

definition plain_char :: "char \<Rightarrow> bool" where
  "plain_char c = (\<not> path_set c \<and> c \<noteq> CHR ''/'' \<and> c \<noteq> CHR '':'')"

definition plain_segment :: "string \<Rightarrow> bool" where
  "plain_segment s = (s \<noteq> [] \<and> list_all plain_char s \<and> \<not> single_dot s \<and> \<not> double_dot s)"

definition normal_path :: "string \<Rightarrow> bool" where
  "normal_path p =
     (case p of
        [] \<Rightarrow> False
      | c # t \<Rightarrow> c = CHR ''/'' \<and> (t = [] \<or> list_all plain_segment (split_on (\<lambda>x. x = CHR ''/'') t)))"

text \<open>
  The windows that \<open>createMockedWindow\<close> and the calls on it give: every entry holds
  a string, and the cursor is on an entry.
\<close>

fun is_href_entry :: "(entry_location \<times> any) option \<Rightarrow> bool" where
  "is_href_entry (Some (Href s, st)) = True"
| "is_href_entry e = False"

definition simulated_surface :: "WindowSubset \<Rightarrow> bool" where
  "simulated_surface w = (index w < length (entries w) \<and> list_all is_href_entry (entries w))"

text \<open>The windows and engines of the examples.\<close>

definition test_surface :: WindowSubset where
  "test_surface = projr (createWindowSubset ''/'')"

definition native_surface :: WindowSubset where
  "native_surface = fst (pushState Null (Some ''/foo'') test_surface)"

definition foreign_surface :: WindowSubset where
  "foreign_surface = fst (replaceState (Object 1) None (createMockedWindow ''/''))"

definition tracked_0 :: History where
  "tracked_0 = projr (createMemoryHistory None None)"

definition tracked_1 :: History where
  "tracked_1 = fst (push memory_driver ''/foo'' Undefined tracked_0)"

definition tracked_2 :: History where
  "tracked_2 = fst (push memory_driver ''/foo'' Undefined tracked_1)"

definition tracked_3 :: History where
  "tracked_3 = fst (push memory_driver ''/foo'' Undefined tracked_2)"

definition tracked_4 :: History where
  "tracked_4 = fst (push memory_driver ''/foo'' Undefined tracked_3)"

definition tracked_5 :: History where
  "tracked_5 = fst (push memory_driver ''/foo'' Undefined tracked_4)"

definition tracked_6 :: History where
  "tracked_6 = fst (go memory_driver (Some (- 5)) tracked_5)"

definition tracked_7 :: History where
  "tracked_7 = fst (push memory_driver ''/foo'' Undefined tracked_6)"

text \<open>The URL of the test suite's window at its start, \<open>https://example.com/\<close>.\<close>

definition example_url :: url where
  "example_url = \<lparr>url_scheme = ''https'', url_host = Some ''example.com'', url_opaque = False,
                    url_path = [[]], url_query = None, url_fragment = None\<rparr>"



text \<open>
  The substitute of the test suite, U+2188, and the hash engine configured with it over
  the test suite's window: its methods and its states.
\<close>

definition custom_substitute :: string where
  "custom_substitute = [CHR 0xE2, CHR 0x86, CHR 0x88]"

definition custom_methods :: HistoryDriver where
  "custom_methods = fst (projr (createHashHistory (Some custom_substitute) test_surface))"

definition hash_engine_0 :: History where
  "hash_engine_0 = snd (projr (createHashHistory (Some custom_substitute) test_surface))"

definition hash_engine_1 :: History where
  "hash_engine_1 = fst (push custom_methods ''/foo'' Undefined hash_engine_0)"

definition hash_engine_2 :: History where
  "hash_engine_2 = fst (push custom_methods ''#bar'' Undefined hash_engine_1)"


text \<open>
  The two pushes of the round trip on a new hash engine: the engine after
  \<open>push('/foo')\<close> and \<open>push('#bar')\<close>, or the first error thrown.
\<close>

definition round_trip :: "string \<Rightarrow> WindowSubset \<Rightarrow> error + History" where
  "round_trip hashSubstitute w =
     (case createHashHistory (Some hashSubstitute) w of
        Inl e \<Rightarrow> Inl e
      | Inr (d, h0) \<Rightarrow>
          (case push d ''/foo'' Undefined h0 of
             (h1, Some e) \<Rightarrow> Inl e
           | (h1, None) \<Rightarrow>
               (case push d ''#bar'' Undefined h1 of
                  (h2, Some e) \<Rightarrow> Inl e
                | (h2, None) \<Rightarrow> Inr h2)))"


text \<open>A string occurs in another.\<close>

fun occurs :: "string \<Rightarrow> string \<Rightarrow> bool" where
  "occurs pat [] = (pat = [])"
| "occurs pat (c # cs) = (take (length pat) (c # cs) = pat \<or> occurs pat cs)"

text \<open>
  One character in UTF-8: the well-formed byte sequences of a single code point, one to
  four bytes (Unicode Standard, table 3-7).
\<close>

definition continuation :: "char \<Rightarrow> bool" where
  "continuation c = (128 \<le> code c \<and> code c \<le> 191)"

definition utf8_character :: "string \<Rightarrow> bool" where
  "utf8_character s =
     (case s of
        [a] \<Rightarrow> code a < 128
      | [a, b] \<Rightarrow> 194 \<le> code a \<and> code a \<le> 223 \<and> continuation b
      | [a, b, c] \<Rightarrow>
          (code a = 224 \<and> 160 \<le> code b \<and> code b \<le> 191
           \<or> 225 \<le> code a \<and> code a \<le> 236 \<and> continuation b
           \<or> code a = 237 \<and> 128 \<le> code b \<and> code b \<le> 159
           \<or> 238 \<le> code a \<and> code a \<le> 239 \<and> continuation b)
          \<and> continuation c
      | [a, b, c, d] \<Rightarrow>
          (code a = 240 \<and> 144 \<le> code b \<and> code b \<le> 191
           \<or> 241 \<le> code a \<and> code a \<le> 243 \<and> continuation b
           \<or> code a = 244 \<and> 128 \<le> code b \<and> code b \<le> 143)
          \<and> continuation c \<and> continuation d
      | _ \<Rightarrow> False)"

text \<open>
  The substitutes that do not come back from the window as they went in: the URL parser
  drops a tab, a line feed and a carriage return, \<open>decodeURIComponent\<close> takes \<open>%\<close> for
  the start of an escape, and \<open>/\<close> is what the path that precedes the substitute
  starts with.
\<close>

definition lost_substitute :: "string \<Rightarrow> bool" where
  "lost_substitute s = (s \<in> set [''/'', ''%'', [CHR 0x09], [CHR 0x0A], [CHR 0x0D]])"

text \<open>
  URLs as the parser returns them, as far as it looks at them when it reads their href
  again: a lower-case scheme other than \<open>file\<close>; then either a host without white
  space, control characters and delimiters, not empty when the scheme is special, and a
  path that is not opaque; or no host, a scheme that is not special and a path, opaque
  or not, that does not start with a slash, a tab or a newline after the first slash
  that the serialization writes.
\<close>

definition wellformed_scheme :: "string \<Rightarrow> bool" where
  "wellformed_scheme sch =
     (sch \<noteq> [] \<and> ascii_alpha (hd sch) \<and> list_all scheme_char sch
      \<and> map ascii_lowercase sch = sch \<and> sch \<noteq> ''file'')"

definition host_char :: "char \<Rightarrow> bool" where
  "host_char c =
     (\<not> c0_control_or_space c \<and> c \<notin> set [CHR ''/'', CHR 0x5C, CHR ''?'', CHR ''#''])"

definition clean_start :: "string \<Rightarrow> bool" where
  "clean_start t = (t = [] \<or> (hd t \<noteq> CHR ''/'' \<and> \<not> ascii_tab_or_newline (hd t)))"

definition readable :: "url \<Rightarrow> bool" where
  "readable u =
     (wellformed_scheme (url_scheme u)
      \<and> (case url_host u of
           Some h \<Rightarrow>
             \<not> url_opaque u \<and> list_all host_char h \<and> (h = [] \<longrightarrow> \<not> is_special (url_scheme u))
         | None \<Rightarrow>
             \<not> is_special (url_scheme u)
             \<and> (if url_opaque u then clean_start (concat (url_path u))
                 else url_path u \<noteq> [] \<and> clean_start (hd (url_path u)))))"

text \<open>
  An entry of the test suite's window, or of a browser's, holding such a URL; and one
  whose URL has a hierarchical path, against which a path can be resolved.
\<close>

fun is_url_entry :: "(entry_location \<times> any) option \<Rightarrow> bool" where
  "is_url_entry (Some (Url u, st)) = readable u"
| "is_url_entry e = False"

section \<open>Notifications\<close>

lemma ok_unchanged: "notified h' = notified h \<Longrightarrow> delivered_ok act h h'"
  by (simp add: delivered_ok_def news_def)

lemma ok_trigger:
  assumes "triggerChange d act h2 = (h', e)"
    and "notified h2 = notified h" "listeners h2 = listeners h" "location h2 = location h"
  shows "delivered_ok act h h'"
  using assms
  by (auto simp: triggerChange_def delivered_ok_def news_def split: sum.splits)

lemma ok_push: "push d to st h = (h', e) \<Longrightarrow> delivered_ok PUSH h h'"
  unfolding push_def
  by (auto split: sum.splits prod.splits option.splits intro: ok_unchanged elim!: ok_trigger)

lemma ok_replace: "replace d to st h = (h', e) \<Longrightarrow> delivered_ok REPLACE h h'"
  unfolding replace_def
  by (auto split: sum.splits prod.splits option.splits intro: ok_unchanged elim!: ok_trigger)

lemma ok_go: "go d delta h = (h', e) \<Longrightarrow> delivered_ok POP h h'"
  unfolding go_def
  by (auto split: sum.splits prod.splits option.splits if_splits intro: ok_unchanged elim!: ok_trigger)

lemma perform_ok: "perform d x h = (h', e) \<Longrightarrow> delivered_ok (action_of x) h h'"
  by (cases x)
     (auto simp: go_back_def go_forward_def subscribe_def unsubscribe_def destroy_def
           intro: ok_unchanged ok_push ok_replace ok_go)

text \<open>
  C3. Whatever a caller or the surface does next, every listener call it causes is made
  for a listener subscribed at that time, carries the action of the call, the very
  \<open>Location\<close> object that the engine holds as \<open>location\<close> (same address, same
  content), and as \<open>from\<close> the object the engine held as \<open>location\<close> just before,
  which is also what the engine now holds as \<open>from\<close>.
\<close>

theorem notification_carries_engine_location:
  assumes "perform d x h = (h', e)"
  shows "notified h' = notified h @ news h h' \<and>
         (\<forall>n \<in> set (news h h').
             fst n \<in> set (listeners h) \<and>
             change_action (snd n) = action_of x \<and>
             change_location (snd n) = location h' \<and>
             ref (change_location (snd n)) = ref (location h') \<and>
             change_from (snd n) = Some (location h) \<and>
             from_location h' = Some (location h))"
  using perform_ok[OF assms] by (simp add: delivered_ok_def)

theorem notification_carries_engine_location_witness:
  "perform memory_driver (Push ''/foo'' Undefined) example_engine
     = (example_pushed, None)
   \<and> map fst (news example_engine example_pushed) = [7]
   \<and> list_all (\<lambda>n. change_action (snd n) = PUSH
                  \<and> change_location (snd n)
                      = location example_pushed
                  \<and> change_from (snd n) = Some (location example_engine))
        (news example_engine example_pushed)"
proof -
  have p: "perform memory_driver (Push ''/foo'' Undefined) example_engine
             = (example_pushed, None)"
    by code_simp
  have m: "map fst (news example_engine example_pushed) = [7]"
    by code_simp
  from notification_carries_engine_location[OF p] p m show ?thesis
    by (simp add: list_all_iff)
qed

section \<open>The simulated surface\<close>

lemma clamp_max_min: "nat (clamp x 0 hi) = nat (max 0 (min hi x))"
  by (auto simp: clamp_def max_def min_def)

lemma clamped_target_code:
  "clamped_target w delta
     = nat (max 0 (min (int (length (entries w)) - 1) (int (index w) + delta)))"
  by (simp only: clamped_target_def clamp_max_min)

lemma history_go_clamps:
  "history_go (Some delta) w =
     (w\<lparr>index := clamped_target w delta\<rparr>,
      if clamped_target w delta = index w then [] else popstate_listeners w)"
  by (simp add: history_go_def clamped_target_code Let_def)

lemma count_list_distinct: "distinct xs \<Longrightarrow> x \<in> set xs \<Longrightarrow> count_list xs x = 1"
  by (induction xs) auto

lemma go_noop:
  "clamped_target (window h) delta = index (window h) \<Longrightarrow> go d (Some delta) h = (h, None)"
  by (simp add: go_def history_go_clamps)

lemma go_fires:
  assumes "clamped_target (window h) delta \<noteq> index (window h)"
    and "HandlePop \<in> set (popstate_listeners (window h))"
  shows "go d (Some delta) h
           = triggerChange d POP (h\<lparr>window := (window h)\<lparr>index := clamped_target (window h) delta\<rparr>\<rparr>)"
  using assms by (simp add: go_def history_go_clamps)

text \<open>
  C4. \<open>history.go(delta)\<close> of the simulated surface sets the cursor to
  \<open>clamp(cursor + delta, 0, length - 1)\<close> and changes nothing else. When that is the
  cursor it had, the window is as before and no listener is called, so that the engine's
  \<open>go\<close> leaves the engine as it was, with nothing notified; otherwise every
  registered listener is called exactly once, and an engine that is registered runs
  \<open>triggerChange('POP')\<close> once, on the window with the new cursor.
\<close>

theorem goByDelta_clamps_or_is_noop:
  "history_go (Some delta) w =
     (w\<lparr>index := clamped_target w delta\<rparr>,
      if clamped_target w delta = index w then [] else popstate_listeners w)
   \<and> (clamped_target w delta = index w \<longrightarrow> history_go (Some delta) w = (w, []))
   \<and> (clamped_target w delta \<noteq> index w \<longrightarrow> distinct (popstate_listeners w) \<longrightarrow>
        (\<forall>cb \<in> set (popstate_listeners w). count_list (snd (history_go (Some delta) w)) cb = 1))
   \<and> (clamped_target (window h) delta = index (window h) \<longrightarrow> go d (Some delta) h = (h, None))
   \<and> (clamped_target (window h) delta \<noteq> index (window h) \<longrightarrow>
        HandlePop \<in> set (popstate_listeners (window h)) \<longrightarrow>
        go d (Some delta) h
          = triggerChange d POP
              (h\<lparr>window := (window h)\<lparr>index := clamped_target (window h) delta\<rparr>\<rparr>))"
  by (simp add: history_go_clamps go_noop go_fires count_list_distinct)

theorem goByDelta_clamps_or_is_noop_witness:
  "clamped_target example_window (- 5) = 0
   \<and> history_go (Some (- 5)) example_window = (example_window\<lparr>index := 0\<rparr>, [HandlePop, Foreign 3])
   \<and> count_list (snd (history_go (Some (- 5)) example_window)) HandlePop = 1
   \<and> clamped_target example_window 4 = index example_window
   \<and> history_go (Some 4) example_window = (example_window, [])
   \<and> go memory_driver (Some (- 5)) example_engine = (example_engine, None)
   \<and> go memory_driver (Some (- 5)) example_pushed
       = triggerChange memory_driver POP
           (example_pushed
              \<lparr>window := (window example_pushed)
                           \<lparr>index := 0\<rparr>\<rparr>)"
proof -
  have a: "clamped_target example_window (- 5) = 0" by code_simp
  have b: "index example_window = 2" "popstate_listeners example_window = [HandlePop, Foreign 3]"
    by (simp_all add: example_window_def)
  have c: "clamped_target example_window 4 = index example_window" by code_simp
  have d: "clamped_target (window example_engine) (- 5) = index (window example_engine)"
    by code_simp
  have e: "clamped_target (window example_pushed) (- 5) = 0"
    "index (window example_pushed) = 1"
    "popstate_listeners (window example_pushed) = [HandlePop]"
    by code_simp+
  show ?thesis
    using goByDelta_clamps_or_is_noop[of "- 5" example_window example_engine memory_driver]
      goByDelta_clamps_or_is_noop[of 4 example_window
        "example_pushed" memory_driver]
      goByDelta_clamps_or_is_noop[of "- 5" example_window
        "example_pushed" memory_driver]
    by (simp add: a b c d e)
qed

section \<open>Destroying an engine\<close>

lemma perform_listeners:
  "x \<noteq> Subscribe l \<Longrightarrow> l \<notin> set (listeners h) \<Longrightarrow> l \<notin> set (listeners (fst (perform d x h)))"
  by (cases x)
     (auto simp: push_def replace_def go_def go_back_def go_forward_def subscribe_def
                 unsubscribe_def destroy_def triggerChange_def
           split: sum.splits prod.splits option.splits if_splits)

lemma perform_silent:
  assumes "l \<notin> set (listeners h)"
  shows "received l (fst (perform d x h)) = received l h"
proof -
  obtain h' e where p: "perform d x h = (h', e)" by (cases "perform d x h")
  from perform_ok[OF p] have n: "notified h' = notified h @ news h h'"
    and m: "\<forall>n \<in> set (news h h'). fst n \<in> set (listeners h)"
    by (auto simp: delivered_ok_def)
  from m assms have "filter (\<lambda>n. fst n = l) (news h h') = []"
    by (auto simp: filter_empty_conv)
  with n p show ?thesis by (simp add: received_def)
qed

lemma run_silent:
  "Subscribe l \<notin> set xs \<Longrightarrow> l \<notin> set (listeners h) \<Longrightarrow> received l (run d xs h) = received l h"
proof (induction xs arbitrary: h)
  case Nil
  then show ?case by simp
next
  case (Cons x xs)
  then have "x \<noteq> Subscribe l" "Subscribe l \<notin> set xs" by auto
  with Cons show ?case
    by (simp add: perform_listeners perform_silent)
qed

lemma destroy_twice: "destroy (destroy h) = destroy h"
  by (simp add: destroy_def removeEventListener_def)

lemma go_after_destroy: "go d delta (destroy h) = ((destroy h)\<lparr>window := fst (history_go delta (window (destroy h)))\<rparr>, None)"
  by (cases delta) (auto simp: go_def history_go_def destroy_def removeEventListener_def Let_def)

text \<open>
  C9. After \<open>destroy()\<close>, whatever is done next, by the engine's own methods or
  directly on the window, in any number and order, a listener that is not subscribed
  again receives nothing more: what it has received stays what it was before the
  destroy. The window no longer calls the engine, whose \<open>go\<close> only moves the cursor.
  A second \<open>destroy()\<close> returns normally and changes nothing.
\<close>

theorem destroy_is_final:
  "(Subscribe l \<notin> set xs \<longrightarrow> received l (run d xs (destroy h)) = received l h)
   \<and> listeners (destroy h) = []
   \<and> HandlePop \<notin> set (popstate_listeners (window (destroy h)))
   \<and> go d delta (destroy h)
       = ((destroy h)\<lparr>window := fst (history_go delta (window (destroy h)))\<rparr>, None)
   \<and> perform d Destroy (destroy h) = (destroy h, None)"
proof -
  have "l \<notin> set (listeners (destroy h))" by (simp add: destroy_def)
  then have "Subscribe l \<notin> set xs \<Longrightarrow> received l (run d xs (destroy h)) = received l (destroy h)"
    by (rule run_silent[rotated])
  moreover have "received l (destroy h) = received l h"
    by (simp add: received_def destroy_def)
  moreover have "HandlePop \<notin> set (popstate_listeners (window (destroy h)))"
    by (simp add: destroy_def removeEventListener_def)
  ultimately show ?thesis
    by (simp add: destroy_twice go_after_destroy) (simp add: destroy_def)
qed

theorem destroy_is_final_witness:
  "Subscribe 7 \<notin> set [Push ''/bar'' Undefined, Window_go (Some (- 1)), Subscribe 8, Replace ''/baz'' Null, Back]
   \<and> received 7 example_pushed \<noteq> []
   \<and> received 7 (run memory_driver
                    [Push ''/bar'' Undefined, Window_go (Some (- 1)), Subscribe 8, Replace ''/baz'' Null, Back]
                    (destroy example_pushed))
       = received 7 example_pushed
   \<and> perform memory_driver Destroy (destroy example_pushed)
       = (destroy example_pushed, None)"
proof -
  have a: "Subscribe 7 \<notin> set [Push ''/bar'' Undefined, Window_go (Some (- 1)), Subscribe 8, Replace ''/baz'' Null, Back]"
    by simp
  have b: "received 7 example_pushed \<noteq> []"
    by code_simp
  show ?thesis
    using destroy_is_final[of 7
        "[Push ''/bar'' Undefined, Window_go (Some (- 1)), Subscribe 8, Replace ''/baz'' Null, Back]"
        memory_driver "example_pushed"] a b
    by simp
qed

lemma pushState_new:
  "new_entry_location w loc = Inr l \<Longrightarrow>
     pushState st loc w
       = (w\<lparr>entries := take (index w + 1) (entries w) @ [Some (l, st)], index := index w + 1\<rparr>,
          None)"
  by (auto simp: pushState_def new_entry_location_def split: sum.splits)

lemma pushState_result:
  "pushState s u w = (w', None) \<Longrightarrow>
     index w' = index w + 1 \<and> popstate_listeners w' = popstate_listeners w
     \<and> (\<exists>l. entries w' = take (index w + 1) (entries w) @ [Some (l, s)])"
  by (auto simp: pushState_def split: sum.splits)

lemma replaceState_result:
  "replaceState s u w = (w', None) \<Longrightarrow>
     index w' = index w \<and> popstate_listeners w' = popstate_listeners w
     \<and> (\<exists>l. entries w' = array_set (entries w) (index w) (l, s))"
  by (auto simp: replaceState_def split: sum.splits)

lemma push_runs:
  assumes "prepareState d st to (location h) = Inr s"
    and "prepareUrl d to (location h) = Inr u"
    and "pushState s u (window h) = (w, None)"
    and "getLocation d (next_ref h) w = Inr loc"
  shows "push d to st h =
           (h\<lparr>window := w, location := loc, from_location := Some (location h),
              next_ref := next_ref h + 1,
              notified := notified h
                @ map (\<lambda>x. (x, \<lparr>change_action = PUSH, change_location = loc,
                                 change_from = Some (location h)\<rparr>)) (listeners h)\<rparr>, None)"
  using assms by (simp add: push_def triggerChange_def)

lemma replace_runs:
  assumes "prepareState d st to (location h) = Inr s"
    and "prepareUrl d to (location h) = Inr u"
    and "replaceState s u (window h) = (w, None)"
    and "getLocation d (next_ref h) w = Inr loc"
  shows "replace d to st h =
           (h\<lparr>window := w, location := loc, from_location := Some (location h),
              next_ref := next_ref h + 1,
              notified := notified h
                @ map (\<lambda>x. (x, \<lparr>change_action = REPLACE, change_location = loc,
                                 change_from = Some (location h)\<rparr>)) (listeners h)\<rparr>, None)"
  using assms by (simp add: replace_def triggerChange_def)

text \<open>
  C10. \<open>destroy()\<close> empties the listener set and takes \<open>handlePop\<close> off the window;
  the entries and the cursor of the window, \<open>location\<close>, \<open>from\<close> and what was notified
  so far stay. On the destroyed engine, a \<open>push\<close> or \<open>replace\<close> whose driver and
  window calls succeed still writes the entry into the window, still makes the derived
  \<open>Location\<close> the engine's \<open>location\<close> and the former one its \<open>from\<close>, and a listener
  subscribed after the destroy is called within that \<open>push\<close> or \<open>replace\<close>.
\<close>

theorem destroy_leaves_navigation_working:
  "entries (window (destroy h)) = entries (window h)
   \<and> index (window (destroy h)) = index (window h)
   \<and> location (destroy h) = location h
   \<and> from_location (destroy h) = from_location h
   \<and> notified (destroy h) = notified h
   \<and> listeners (destroy h) = []
   \<and> popstate_listeners (window (destroy h))
       = filter (\<lambda>x. x \<noteq> HandlePop) (popstate_listeners (window h))
   \<and> (prepareState d st to (location h) = Inr s \<longrightarrow>
      prepareUrl d to (location h) = Inr u \<longrightarrow>
      pushState s u (window (destroy h)) = (w, None) \<longrightarrow>
      getLocation d (next_ref h) w = Inr loc \<longrightarrow>
        push d to st (subscribe l (destroy h))
          = (\<lparr>window = w, location = loc, from_location = Some (location h), listeners = [l],
              next_ref = next_ref h + 1,
              notified = notified h
                @ [(l, \<lparr>change_action = PUSH, change_location = loc,
                        change_from = Some (location h)\<rparr>)]\<rparr>, None)
        \<and> index w = index (window h) + 1
        \<and> (\<exists>e. entries w = take (index (window h) + 1) (entries (window h)) @ [Some (e, s)]))
   \<and> (prepareState d st to (location h) = Inr s \<longrightarrow>
      prepareUrl d to (location h) = Inr u \<longrightarrow>
      replaceState s u (window (destroy h)) = (w, None) \<longrightarrow>
      getLocation d (next_ref h) w = Inr loc \<longrightarrow>
        replace d to st (subscribe l (destroy h))
          = (\<lparr>window = w, location = loc, from_location = Some (location h), listeners = [l],
              next_ref = next_ref h + 1,
              notified = notified h
                @ [(l, \<lparr>change_action = REPLACE, change_location = loc,
                        change_from = Some (location h)\<rparr>)]\<rparr>, None)
        \<and> index w = index (window h)
        \<and> (\<exists>e. entries w = array_set (entries (window h)) (index (window h)) (e, s)))"
proof -
  have frame: "entries (window (destroy h)) = entries (window h)"
    "index (window (destroy h)) = index (window h)"
    "location (destroy h) = location h"
    "from_location (destroy h) = from_location h"
    "notified (destroy h) = notified h"
    "listeners (destroy h) = []"
    "next_ref (destroy h) = next_ref h"
    "popstate_listeners (window (destroy h))
       = filter (\<lambda>x. x \<noteq> HandlePop) (popstate_listeners (window h))"
    by (simp_all add: destroy_def removeEventListener_def)
  have sub: "subscribe l (destroy h) = (destroy h)\<lparr>listeners := [l]\<rparr>"
    by (simp add: subscribe_def frame)
  have p: "push d to st (subscribe l (destroy h))
          = (\<lparr>window = w, location = loc, from_location = Some (location h), listeners = [l],
              next_ref = next_ref h + 1,
              notified = notified h
                @ [(l, \<lparr>change_action = PUSH, change_location = loc,
                        change_from = Some (location h)\<rparr>)]\<rparr>, None)"
    if "prepareState d st to (location h) = Inr s" "prepareUrl d to (location h) = Inr u"
      "pushState s u (window (destroy h)) = (w, None)" "getLocation d (next_ref h) w = Inr loc"
    using that push_runs[of d st to "subscribe l (destroy h)" s u w loc]
    by (simp add: sub frame)
  have r: "replace d to st (subscribe l (destroy h))
          = (\<lparr>window = w, location = loc, from_location = Some (location h), listeners = [l],
              next_ref = next_ref h + 1,
              notified = notified h
                @ [(l, \<lparr>change_action = REPLACE, change_location = loc,
                        change_from = Some (location h)\<rparr>)]\<rparr>, None)"
    if "prepareState d st to (location h) = Inr s" "prepareUrl d to (location h) = Inr u"
      "replaceState s u (window (destroy h)) = (w, None)" "getLocation d (next_ref h) w = Inr loc"
    using that replace_runs[of d st to "subscribe l (destroy h)" s u w loc]
    by (simp add: sub frame)
  show ?thesis
    using p r pushState_result[of s u "window (destroy h)" w]
      replaceState_result[of s u "window (destroy h)" w]
    by (simp add: frame)
qed

theorem destroy_leaves_navigation_working_witness:
  "prepareState memory_driver Null ''/bar'' (location example_pushed)
     = Inr (Memory_State Null ''/bar'')
   \<and> prepareUrl memory_driver ''/bar'' (location example_pushed) = Inr None
   \<and> pushState (Memory_State Null ''/bar'') None (window (destroy example_pushed))
       = (fst (pushState (Memory_State Null ''/bar'') None (window (destroy example_pushed))), None)
   \<and> replaceState (Memory_State Null ''/bar'') None (window (destroy example_pushed))
       = (fst (replaceState (Memory_State Null ''/bar'') None (window (destroy example_pushed))), None)
   \<and> received 9 (fst (push memory_driver ''/bar'' Null (subscribe 9 (destroy example_pushed))))
       = [(9, \<lparr>change_action = PUSH,
               change_location = \<lparr>ref = 2, href = ''/bar'', path = ''/bar'', search = [],
                                   hash = [], state = Null\<rparr>,
               change_from = Some (location example_pushed)\<rparr>)]
   \<and> received 9 (fst (replace memory_driver ''/bar'' Null (subscribe 9 (destroy example_pushed))))
       = [(9, \<lparr>change_action = REPLACE,
               change_location = \<lparr>ref = 2, href = ''/bar'', path = ''/bar'', search = [],
                                   hash = [], state = Null\<rparr>,
               change_from = Some (location example_pushed)\<rparr>)]"
proof -
  let ?s = "Memory_State Null ''/bar''"
  let ?w = "fst (pushState ?s None (window (destroy example_pushed)))"
  let ?w' = "fst (replaceState ?s None (window (destroy example_pushed)))"
  let ?l = "\<lparr>ref = 2, href = ''/bar'', path = ''/bar'', search = [], hash = [], state = Null\<rparr>"
  have a: "prepareState memory_driver Null ''/bar'' (location example_pushed) = Inr ?s"
    by code_simp
  have b: "prepareUrl memory_driver ''/bar'' (location example_pushed) = Inr None"
    by (simp add: memory_driver_def)
  have c: "pushState ?s None (window (destroy example_pushed)) = (?w, None)"
    by code_simp
  have c': "replaceState ?s None (window (destroy example_pushed)) = (?w', None)"
    by code_simp
  have e: "getLocation memory_driver (next_ref example_pushed) ?w = Inr ?l"
    by code_simp
  have e': "getLocation memory_driver (next_ref example_pushed) ?w' = Inr ?l"
    by code_simp
  have n: "filter (\<lambda>n. fst n = 9) (notified example_pushed) = []"
    by code_simp
  from destroy_leaves_navigation_working[of example_pushed memory_driver Null "''/bar''" ?s None ?w ?l 9]
    a b c e
  have p: "received 9 (fst (push memory_driver ''/bar'' Null (subscribe 9 (destroy example_pushed))))
       = [(9, \<lparr>change_action = PUSH, change_location = ?l,
               change_from = Some (location example_pushed)\<rparr>)]"
    by (simp add: received_def n)
  from destroy_leaves_navigation_working[of example_pushed memory_driver Null "''/bar''" ?s None ?w' ?l 9]
    a b c' e'
  have r: "received 9 (fst (replace memory_driver ''/bar'' Null (subscribe 9 (destroy example_pushed))))
       = [(9, \<lparr>change_action = REPLACE, change_location = ?l,
               change_from = Some (location example_pushed)\<rparr>)]"
    by (simp add: received_def n)
  from a b c c' p r show ?thesis by simp
qed

section \<open>Strings and URLs\<close>

lemma code_eq: "code c = code d \<Longrightarrow> c = d"
  by (simp add: code_def)

lemma split_on_nonempty: "split_on sep t \<noteq> []"
  by (induction t) (auto split: list.splits)

lemma split_on_join:
  "concat (map (\<lambda>s. CHR ''/'' # s) (split_on (\<lambda>x. x = CHR ''/'') t)) = CHR ''/'' # t"
  by (induction t) (auto split: list.splits simp: split_on_nonempty)

lemma split_on_free: "\<forall>s \<in> set (split_on sep t). \<forall>c \<in> set s. \<not> sep c"
  by (induction t) (auto split: list.splits)

lemma split_on_hd:
  "t \<noteq> [] \<Longrightarrow> hd t = CHR ''/'' \<Longrightarrow> hd (split_on (\<lambda>x. x = CHR ''/'') t) = []"
  by (cases t) auto

lemma split_on_snoc: "sep d \<Longrightarrow> split_on sep (xs @ [d]) = split_on sep xs @ [[]]"
  by (induction xs) (auto split: list.splits simp: split_on_nonempty)

lemma split_on_last:
  "t \<noteq> [] \<Longrightarrow> last t = CHR ''/'' \<Longrightarrow> last (split_on (\<lambda>x. x = CHR ''/'') t) = []"
proof -
  assume a: "t \<noteq> []" "last t = CHR ''/''"
  then have "t = butlast t @ [CHR ''/'']" using append_butlast_last_id[of t] by simp
  then have "split_on (\<lambda>x. x = CHR ''/'') t = split_on (\<lambda>x. x = CHR ''/'') (butlast t) @ [[]]"
    using split_on_snoc[of "\<lambda>x. x = CHR ''/''" "CHR ''/''" "butlast t"] by simp
  then show ?thesis by simp
qed

lemma split_first_prefix:
  "d \<notin> set p \<Longrightarrow> split_first d (p @ s) = (p @ fst (split_first d s), snd (split_first d s))"
  by (induction p) (auto split: prod.splits)

lemma split_first_absent: "d \<notin> set s \<Longrightarrow> split_first d s = (s, None)"
  by (induction s) auto

lemma strip_input_id:
  assumes "\<forall>c \<in> set s. \<not> c0_control_or_space c"
  shows "strip_input s = s"
proof -
  have t: "\<not> ascii_tab_or_newline c" if "c \<in> set s" for c
    using assms that by (auto simp: ascii_tab_or_newline_def c0_control_or_space_def)
  have d: "dropWhile c0_control_or_space xs = xs"
    if "\<forall>c \<in> set xs. \<not> c0_control_or_space c" for xs
    using that by (cases xs) auto
  from assms t show ?thesis
    by (simp add: strip_input_def d filter_id_conv)
qed

lemma strip_input_prefix:
  assumes "p \<noteq> []" "\<not> c0_control_or_space (hd p)" "\<not> c0_control_or_space (last p)"
    and "\<forall>c \<in> set p. \<not> ascii_tab_or_newline c"
  shows "\<exists>s'. strip_input (p @ s) = p @ s'"
proof -
  let ?P = c0_control_or_space
  from assms(1,2) have a: "dropWhile ?P (p @ s) = p @ s"
    by (cases p) auto
  from assms(1,3) have b: "dropWhile ?P (rev p) = rev p"
    by (cases "rev p") (auto simp: last_rev hd_rev dest: arg_cong[where f=hd])
  have "\<exists>t. rev (dropWhile ?P (rev s @ rev p)) = p @ t"
    by (auto simp: dropWhile_append b)
  then obtain t where t: "rev (dropWhile ?P (rev (p @ s))) = p @ t" by auto
  from assms(4) have "filter (\<lambda>c. \<not> ascii_tab_or_newline c) p = p"
    by (simp add: filter_id_conv)
  with a t show ?thesis by (simp add: strip_input_def)
qed

lemma encode_id: "\<forall>c \<in> set s. \<not> S c \<Longrightarrow> utf8_percent_encode S s = s"
  by (induction s) (auto simp: utf8_percent_encode_def)

lemma path_segments_plain:
  assumes "\<forall>s \<in> set segs. utf8_percent_encode path_set s = s \<and> \<not> single_dot s \<and> \<not> double_dot s"
  shows "path_segments p segs = p @ segs"
  using assms
  by (induction p segs rule: path_segments.induct) (auto simp: Let_def)

lemma scheme_pr: "scheme_of (''pr:'' @ p) = Some (''pr'', p)"
  by (simp add: scheme_of_def scheme_char_def ascii_alpha_def ascii_digit_def code_def
        ascii_lowercase_def)

lemma scheme_https: "scheme_of (''https://m.com'' @ a) = Some (''https'', ''//m.com'' @ a)"
  by (simp add: scheme_of_def scheme_char_def ascii_alpha_def ascii_digit_def code_def
        ascii_lowercase_def)

text \<open>The base of the memory driver always parses, whatever the current href.\<close>

lemma base_parses:
  "\<exists>b. url_parse (''https://m.com'' @ hr) None = Some b \<and> url_scheme b = ''https''
       \<and> \<not> url_opaque b"
proof -
  obtain s' where s: "strip_input (''https://m.com'' @ hr) = ''https://m.com'' @ s'"
    using strip_input_prefix[of "''https://m.com''" hr]
    by (auto simp: c0_control_or_space_def ascii_tab_or_newline_def code_def)
  have aa: "\<And>a q f. \<exists>b. after_authority ''https'' (dropWhile (is_slash True) (''//m.com'' @ a)) q f
                              = Some b
          \<and> url_scheme b = ''https'' \<and> \<not> url_opaque b"
    by (simp add: after_authority_def is_special_def is_slash_def Let_def)
  have sp: "is_special ''https''" by (simp add: is_special_def)
  show ?thesis
    using aa
    by (simp add: url_parse_def s split_first_prefix scheme_https parse_with_scheme_def sp
           Let_def del: append.simps split_first.simps)
qed

lemma relative_foo:
  assumes "url_scheme b = ''https''" "\<not> url_opaque b"
  shows "url_parse ''/foo'' (Some b)
           = Some (b\<lparr>url_path := [''foo''], url_query := None, url_fragment := None\<rparr>)"
  using assms
  by (simp add: url_parse_def strip_input_def c0_control_or_space_def ascii_tab_or_newline_def
        code_def scheme_of_def ascii_alpha_def parse_no_scheme_def relative_url_def
        is_special_def is_slash_def path_state_def utf8_percent_encode_def path_set_def
        query_set_def c0_control_set_def double_dot_def single_dot_def ascii_lowercase_def
        Let_def)

lemma memory_prepareState_foo:
  "memory_prepareState st ''/foo'' cur = Inr (Memory_State st ''/foo'')"
proof -
  obtain b where b:
    "url_parse (''https://m.com'' @ (case cur of None \<Rightarrow> [] | Some l \<Rightarrow> href l)) None = Some b"
    "url_scheme b = ''https''" "\<not> url_opaque b"
    using base_parses by blast
  show ?thesis
    by (simp add: memory_prepareState_def URL_def b relative_foo url_pathname_def
          url_search_def url_hash_def del: append.simps)
qed

lemma createLocation_foo:
  "createLocation a ''/foo'' st
     = Inr \<lparr>ref = a, href = ''/foo'', path = ''/foo'', search = [], hash = [], state = st\<rparr>"
  by code_simp

lemma createLocation_root:
  "createLocation a ''/'' st
     = Inr \<lparr>ref = a, href = ''/'', path = ''/'', search = [], hash = [], state = st\<rparr>"
  by code_simp


section \<open>Normalization of the path\<close>

lemma rds_cons:
  "c \<noteq> CHR ''/'' \<Longrightarrow> remove_duplicate_slashes (c # xs) = c # remove_duplicate_slashes xs"
  by (cases xs) auto

lemma rds_seg:
  "CHR ''/'' \<notin> set s \<Longrightarrow> remove_duplicate_slashes (s @ r) = s @ remove_duplicate_slashes r"
  by (induction s) (auto simp: rds_cons)

lemma rds_join:
  assumes "\<forall>s \<in> set segs. s \<noteq> [] \<and> CHR ''/'' \<notin> set s"
  shows "remove_duplicate_slashes (concat (map (\<lambda>s. CHR ''/'' # s) segs))
           = concat (map (\<lambda>s. CHR ''/'' # s) segs)"
  using assms
proof (induction segs)
  case Nil
  then show ?case by simp
next
  case (Cons s segs)
  then obtain c s' where s: "s = c # s'" "c \<noteq> CHR ''/''" "CHR ''/'' \<notin> set s'"
    by (cases s) auto
  with Cons show ?case
    by (simp add: rds_seg rds_cons)
qed

lemma rts_id: "xs \<noteq> [] \<Longrightarrow> last xs \<noteq> CHR ''/'' \<Longrightarrow> remove_trailing_slash xs = xs"
proof (induction xs)
  case Nil
  then show ?case by simp
next
  case (Cons c cs)
  show ?case
  proof (cases "cs = []")
    case True
    then show ?thesis by simp
  next
    case False
    with Cons.prems have "last cs \<noteq> CHR ''/''" by simp
    with False have "filter (\<lambda>x. x \<noteq> CHR ''/'') cs \<noteq> []"
      by (auto simp: filter_empty_conv intro!: bexI[of _ "last cs"])
    with Cons False show ?thesis by simp
  qed
qed

lemma plain_not_space: "plain_char c \<Longrightarrow> \<not> c0_control_or_space c"
proof
  assume p: "plain_char c" and "c0_control_or_space c"
  then have "code c \<le> 32" "\<not> code c \<le> 31" "c \<noteq> CHR '' ''"
    by (auto simp: plain_char_def path_set_def query_set_def c0_control_set_def
          c0_control_or_space_def)
  then have "code c = code CHR '' ''" by (simp add: code_def)
  from code_eq[OF this] \<open>c \<noteq> CHR '' ''\<close> show False by simp
qed

lemma plain_not_delimiter:
  "plain_char c \<Longrightarrow>
     c \<noteq> CHR ''#'' \<and> c \<noteq> CHR ''?'' \<and> c \<noteq> CHR ''/'' \<and> c \<noteq> CHR '':'' \<and> \<not> path_set c"
  by (auto simp: plain_char_def path_set_def query_set_def)

lemma prefix_not_space:
  "\<not> c0_control_or_space CHR ''p''" "\<not> c0_control_or_space CHR ''r''"
  "\<not> c0_control_or_space CHR '':''" "\<not> c0_control_or_space CHR ''/''"
  by (simp_all add: c0_control_or_space_def code_def)

lemma normal_chars:
  assumes "list_all plain_segment (split_on (\<lambda>x. x = CHR ''/'') t)"
  shows "\<forall>c \<in> set t. c = CHR ''/'' \<or> plain_char c"
proof
  fix c
  assume "c \<in> set t"
  then have "c \<in> set (CHR ''/'' # t)" by simp
  then have "c \<in> set (concat (map (\<lambda>s. CHR ''/'' # s) (split_on (\<lambda>x. x = CHR ''/'') t)))"
    by (simp only: split_on_join)
  then have m: "c = CHR ''/'' \<or> (\<exists>s \<in> set (split_on (\<lambda>x. x = CHR ''/'') t). c \<in> set s)"
    by (auto split: if_splits)
  show "c = CHR ''/'' \<or> plain_char c"
  proof (cases "c = CHR ''/''")
    case True
    then show ?thesis by simp
  next
    case False
    with m obtain s where s: "s \<in> set (split_on (\<lambda>x. x = CHR ''/'') t)" "c \<in> set s"
      by blast
    from s(1) assms have "list_all plain_char s"
      by (simp add: list_all_iff plain_segment_def)
    with s(2) show ?thesis
      by (simp add: list_all_iff)
  qed
qed

lemma url_of_normal:
  assumes t: "t \<noteq> []" and segs: "list_all plain_segment (split_on (\<lambda>x. x = CHR ''/'') t)"
  shows "url_parse (''pr:/'' @ t) None
           = Some \<lparr>url_scheme = ''pr'', url_host = None, url_opaque = False,
                   url_path = split_on (\<lambda>x. x = CHR ''/'') t, url_query = None,
                   url_fragment = None\<rparr>"
proof -
  let ?segs = "split_on (\<lambda>x. x = CHR ''/'') t"
  from normal_chars[OF segs] have ch: "\<forall>c \<in> set t. c = CHR ''/'' \<or> plain_char c" .
  have ts: "\<forall>c \<in> set t. \<not> c0_control_or_space c"
  proof
    fix c assume "c \<in> set t"
    with ch have "c = CHR ''/'' \<or> plain_char c" by simp
    then show "\<not> c0_control_or_space c"
      using plain_not_space[of c] prefix_not_space(4) by (elim disjE) simp_all
  qed
  have th: "CHR ''#'' \<notin> set t" "CHR ''?'' \<notin> set t"
  proof -
    have "c \<noteq> CHR ''#'' \<and> c \<noteq> CHR ''?''" if "c \<in> set t" for c
    proof -
      from that ch have "c = CHR ''/'' \<or> plain_char c" by simp
      then show ?thesis using plain_not_delimiter[of c] by (elim disjE) simp_all
    qed
    then show "CHR ''#'' \<notin> set t" "CHR ''?'' \<notin> set t" by blast+
  qed
  have sp: "\<forall>c \<in> set (''pr:/'' @ t). \<not> c0_control_or_space c"
    using ts by (simp add: prefix_not_space)
  have h: "CHR ''#'' \<notin> set (''pr:/'' @ t)" "CHR ''?'' \<notin> set (''pr:/'' @ t)"
    using th by simp_all
  have "hd ?segs \<in> set ?segs"
    using split_on_nonempty[of "\<lambda>x. x = CHR ''/''" t] by simp
  with segs have "plain_segment (hd ?segs)"
    by (simp add: list_all_iff)
  then have "hd ?segs \<noteq> []" by (simp add: plain_segment_def)
  with split_on_hd[OF t] have hd: "hd t \<noteq> CHR ''/''" by auto
  have en: "\<forall>s \<in> set ?segs. utf8_percent_encode path_set s = s \<and> \<not> single_dot s \<and> \<not> double_dot s"
  proof
    fix s assume "s \<in> set ?segs"
    with segs have p: "plain_segment s" by (simp add: list_all_iff)
    then have "\<forall>c \<in> set s. \<not> path_set c"
      by (simp add: plain_segment_def list_all_iff plain_char_def)
    from encode_id[OF this] p
    show "utf8_percent_encode path_set s = s \<and> \<not> single_dot s \<and> \<not> double_dot s"
      by (simp add: plain_segment_def)
  qed
  have ps: "path_segments [] ?segs = ?segs"
    using path_segments_plain[OF en, of "[]"] by simp
  have sl: "is_slash False = (\<lambda>x. x = CHR ''/'')"
    by (auto simp: is_slash_def)
  have sch: "scheme_of (''pr:/'' @ t) = Some (''pr'', CHR ''/'' # t)"
    using scheme_pr[of "CHR ''/'' # t"] by simp
  have t2: "take 2 (CHR ''/'' # t) \<noteq> ''//''"
    using t hd by (cases t) auto
  have "parse_with_scheme ''pr'' (CHR ''/'' # t) None None None
           = Some \<lparr>url_scheme = ''pr'', url_host = None, url_opaque = False,
                   url_path = path_state False [] t, url_query = None, url_fragment = None\<rparr>"
    using t2 by (simp add: parse_with_scheme_def is_special_def)
  then have pw: "parse_with_scheme ''pr'' (CHR ''/'' # t) None None None
           = Some \<lparr>url_scheme = ''pr'', url_host = None, url_opaque = False,
                   url_path = ?segs, url_query = None, url_fragment = None\<rparr>"
    by (simp add: path_state_def sl ps)
  have "url_parse (''pr:/'' @ t) None = parse_with_scheme ''pr'' (CHR ''/'' # t) None None None"
    by (simp add: url_parse_def strip_input_id[OF sp] split_first_absent[OF h(1)]
          split_first_absent[OF h(2)] sch Let_def del: append.simps)
  with pw show ?thesis by simp
qed

lemma createLocation_normal:
  assumes "normal_path p"
  shows "createLocation a p st
           = Inr \<lparr>ref = a, href = p, path = p, search = [], hash = [], state = st\<rparr>"
proof (cases "p = ''/''")
  case True
  then show ?thesis by (simp only: createLocation_root)
next
  case False
  with assms obtain t where p: "p = CHR ''/'' # t" and t: "t \<noteq> []"
    and segs: "list_all plain_segment (split_on (\<lambda>x. x = CHR ''/'') t)"
    by (cases p) (auto simp: normal_path_def)
  let ?segs = "split_on (\<lambda>x. x = CHR ''/'') t"
  from normal_chars[OF segs] have ch: "\<forall>c \<in> set t. c = CHR ''/'' \<or> plain_char c" .
  have nc: "\<not> str_includes p CHR '':''"
  proof -
    have "c \<noteq> CHR '':''" if "c \<in> set t" for c
    proof -
      from that ch have "c = CHR ''/'' \<or> plain_char c" by simp
      then show ?thesis using plain_not_delimiter[of c] by (elim disjE) simp_all
    qed
    then have "CHR '':'' \<notin> set t" by blast
    then show ?thesis by (simp add: str_includes_def p)
  qed
  have u: "URL (''pr:'' @ p) None
             = Inr \<lparr>url_scheme = ''pr'', url_host = None, url_opaque = False,
                    url_path = ?segs, url_query = None, url_fragment = None\<rparr>"
    using url_of_normal[OF t segs] by (simp add: URL_def p)
  have pn: "url_pathname \<lparr>url_scheme = ''pr'', url_host = None, url_opaque = False,
                    url_path = ?segs, url_query = None, url_fragment = None\<rparr> = p"
    by (simp add: url_pathname_def split_on_join p)
  have sf: "\<forall>s \<in> set ?segs. s \<noteq> [] \<and> CHR ''/'' \<notin> set s"
  proof
    fix s assume s: "s \<in> set ?segs"
    with segs have "s \<noteq> []" by (simp add: list_all_iff plain_segment_def)
    moreover from s split_on_free[of "\<lambda>x. x = CHR ''/''" t] have "CHR ''/'' \<notin> set s" by auto
    ultimately show "s \<noteq> [] \<and> CHR ''/'' \<notin> set s" by simp
  qed
  have "remove_duplicate_slashes p = p"
    using rds_join[OF sf] by (simp add: split_on_join p)
  then have rd: "remove_duplicate_slashes (CHR ''/'' # p) = p"
    by (simp add: p)
  have "last ?segs \<in> set ?segs"
    using split_on_nonempty[of "\<lambda>x. x = CHR ''/''" t] by simp
  with sf have "last ?segs \<noteq> []" by simp
  with split_on_last[OF t] have "last t \<noteq> CHR ''/''" by auto
  then have rt: "remove_trailing_slash p = p"
    using rts_id[of p] t by (simp add: p)
  show ?thesis
    using nc u by (simp add: createLocation_def pn rd rt url_search_def url_hash_def Let_def)
qed

section \<open>The path of a location\<close>

text \<open>
  C1. \<open>createLocation\<close> prepends \<open>/\<close>, collapses runs of \<open>/\<close> and then applies
  \<open>.replace(/.\/+$/, '')\<close>, whose match starts one character before the trailing
  slash: on \<open>/foo//bar/\<close> it returns the path \<open>/foo/ba\<close>, where the normalization
  as specified (and as the README documents it) gives \<open>/foo/bar\<close>.
\<close>

theorem trailing_slash_takes_a_character:
  "createLocation a ''/foo//bar/'' st
     = Inr \<lparr>ref = a, href = ''/foo/ba'', path = ''/foo/ba'', search = [], hash = [], state = st\<rparr>
   \<and> normalized_as_specified ''/foo//bar/'' = ''/foo/bar''"
  by code_simp

text \<open>
  C8, as the claim states it, fails where the path of the first parse holds a colon:
  \<open>createLocation\<close> hands a string with a colon to \<open>URL\<close> as it is, and a path is
  not an absolute URL. \<open>pr:/a:b\<close> parses to the path \<open>/a:b\<close>, which does not parse.
\<close>

theorem parse_of_path_with_colon_counterexample:
  "createLocation 0 ''pr:/a:b'' Undefined
     = Inr \<lparr>ref = 0, href = ''/a:b'', path = ''/a:b'', search = [], hash = [], state = Undefined\<rparr>
   \<and> createLocation 1 ''/a:b'' Undefined = Inl TypeError_Invalid_URL"
  by code_simp

text \<open>
  C8, amended. When the first parse succeeds with a path that is \<open>/\<close> or is made of
  non-empty segments, each led by one \<open>/\<close>, of characters the URL parser keeps in a
  path as they are and other than \<open>:\<close>, none of the segments a dot segment, then
  parsing that path succeeds and gives the same path (and no search and no hash).
\<close>

theorem parse_is_idempotent_on_normal_paths:
  assumes "createLocation a x st = Inr l" and "normal_path (path l)"
  shows "createLocation a' (path l) st'
           = Inr \<lparr>ref = a', href = path l, path = path l, search = [], hash = [], state = st'\<rparr>"
  using assms(2) by (rule createLocation_normal)

theorem parse_is_idempotent_on_normal_paths_witness:
  "createLocation 0 ''//host/users//42?tab=1#top'' Null
     = Inr \<lparr>ref = 0, href = ''/users/42?tab=1#top'', path = ''/users/42'', search = ''?tab=1'',
            hash = ''#top'', state = Null\<rparr>
   \<and> normal_path ''/users/42''
   \<and> createLocation 1 ''/users/42'' Undefined
       = Inr \<lparr>ref = 1, href = ''/users/42'', path = ''/users/42'', search = [], hash = [],
              state = Undefined\<rparr>"
proof -
  let ?l = "\<lparr>ref = 0, href = ''/users/42?tab=1#top'', path = ''/users/42'', search = ''?tab=1'',
            hash = ''#top'', state = Null\<rparr>"
  have a: "createLocation 0 ''//host/users//42?tab=1#top'' Null = Inr ?l" by code_simp
  have b: "normal_path (path ?l)" by code_simp
  from parse_is_idempotent_on_normal_paths[OF a b, of 1 Undefined] a b show ?thesis by simp
qed

section \<open>The memory driver\<close>

lemma memory_getLocation_throws:
  "\<not> IS_MEMORY_HISTORY_STATE (history_state w) \<Longrightarrow>
     memory_getLocation a w = Inl (Error ''navigation out of memory history'')"
  by (cases "history_state w") (simp_all add: memory_getLocation_def)


lemma createMemoryHistory_window:
  assumes "createMemoryHistory initial (Some w) = Inr h"
  shows "\<exists>l s. window h = addEventListener ''popstate'' HandlePop
                    (w\<lparr>entries := array_set (entries w) (index w) (l, s)\<rparr>)"
  using assms
  by (auto simp: createMemoryHistory_def createHistory_def replaceState_def
           split: sum.splits prod.splits option.splits) blast+

lemma new_entry_location_None:
  "entries w \<noteq> [] \<Longrightarrow> last (entries w) = Some (l, st) \<Longrightarrow> new_entry_location w None = Inr l"
  by (cases l)
     (simp_all add: new_entry_location_def resolve_location_def entry_location_at_def
        array_get_def last_conv_nth)

text \<open>
  \<open>push('/foo')\<close> on a memory engine whose window has its cursor on an entry and no
  hole at its end.
\<close>

lemma memory_push_foo:
  assumes valid: "index (window h) < length (entries (window h))"
      and tail: "last (entries (window h)) \<noteq> None"
  shows "\<exists>el. push memory_driver ''/foo'' st h =
           (h\<lparr>window := (window h)
                  \<lparr>entries := take (index (window h) + 1) (entries (window h))
                               @ [Some (el, Memory_State st ''/foo'')],
                    index := index (window h) + 1\<rparr>,
              location := \<lparr>ref = next_ref h, href = ''/foo'', path = ''/foo'', search = [],
                            hash = [], state = st\<rparr>,
              from_location := Some (location h),
              next_ref := next_ref h + 1,
              notified := notified h
                @ map (\<lambda>x. (x, \<lparr>change_action = PUSH,
                                 change_location = \<lparr>ref = next_ref h, href = ''/foo'',
                                                     path = ''/foo'', search = [], hash = [],
                                                     state = st\<rparr>,
                                 change_from = Some (location h)\<rparr>)) (listeners h)\<rparr>, None)"
proof -
  define i where "i = index (window h)"
  define es where "es = entries (window h)"
  define s where "s = Memory_State st ''/foo''"
  define l1 where "l1 = \<lparr>ref = next_ref h, href = ''/foo'', path = ''/foo'', search = [],
                           hash = [], state = st\<rparr>"
  from valid have ne: "es \<noteq> []" by (auto simp: es_def)
  with tail obtain el where el: "new_entry_location (window h) None = Inr el"
    using new_entry_location_None[of "window h"]
    by (cases "last (entries (window h))") (auto simp: es_def)
  define w1 where "w1 = (window h)\<lparr>entries := take (i + 1) es @ [Some (el, s)], index := i + 1\<rparr>"
  have ps: "pushState s None (window h) = (w1, None)"
    using el by (simp add: pushState_new w1_def es_def i_def)
  have st1: "history_state w1 = s"
    using valid by (simp add: history_state_def w1_def array_get_def nth_append i_def es_def)
  have g1: "getLocation memory_driver (next_ref h) w1 = Inr l1"
    by (simp add: memory_driver_def memory_getLocation_def st1 s_def createLocation_foo l1_def)
  have "push memory_driver ''/foo'' st h =
           (h\<lparr>window := w1, location := l1, from_location := Some (location h),
              next_ref := next_ref h + 1,
              notified := notified h
                @ map (\<lambda>x. (x, \<lparr>change_action = PUSH, change_location = l1,
                                 change_from = Some (location h)\<rparr>)) (listeners h)\<rparr>, None)"
    by (rule push_runs[where s = s and u = None])
       (simp_all add: memory_driver_def memory_prepareState_foo s_def ps[unfolded s_def]
          g1[unfolded memory_driver_def, simplified])
  then show ?thesis
    by (intro exI[of _ el]) (simp add: w1_def l1_def s_def i_def es_def)
qed


text \<open>
  C2, as the claim states it, fails on a window with nothing before its cursor: the
  state under the cursor was set by a native \<open>replaceState\<close>, the engine is built (its
  constructor overwrites that state), and \<open>back()\<close> is a no-op that raises nothing.
\<close>

theorem memory_back_at_first_entry_counterexample:
  "history_state foreign_surface = Object 1
   \<and> \<not> IS_MEMORY_HISTORY_STATE (history_state foreign_surface)
   \<and> \<not> isl (createMemoryHistory None (Some foreign_surface))
   \<and> go_back memory_driver (projr (createMemoryHistory None (Some foreign_surface)))
       = (projr (createMemoryHistory None (Some foreign_surface)), None)"
  by code_simp

text \<open>
  C2, amended. The memory driver's \<open>getLocation\<close> throws
  \<open>navigation out of memory history\<close> whenever the state under the cursor lacks the
  marker. A memory engine built over a window whose cursor is on an entry that is not
  the first, and whose entry just before the cursor holds a state without the marker,
  raises that error on \<open>back()\<close>: the cursor has moved, \<open>from\<close> has been assigned and
  \<open>location\<close> has not.
\<close>

theorem memory_back_raises:
  assumes "createMemoryHistory initial (Some w) = Inr h"
      and "0 < index w" and "index w < length (entries w)"
      and "\<not> IS_MEMORY_HISTORY_STATE (history_state (w\<lparr>index := index w - 1\<rparr>))"
  shows "go_back memory_driver h =
           (h\<lparr>window := (window h)\<lparr>index := index w - 1\<rparr>,
              from_location := Some (location h)\<rparr>,
            Some (Error ''navigation out of memory history''))
         \<and> (\<forall>a w'. \<not> IS_MEMORY_HISTORY_STATE (history_state w') \<longrightarrow>
               getLocation memory_driver a w' = Inl (Error ''navigation out of memory history''))"
proof -
  define j where "j = index w - 1"
  from createMemoryHistory_window[OF assms(1)] obtain l s where
    w: "window h = addEventListener ''popstate'' HandlePop
                    (w\<lparr>entries := array_set (entries w) (index w) (l, s)\<rparr>)" by blast
  have i: "index (window h) = index w" and n: "length (entries (window h)) = length (entries w)"
    and hp: "HandlePop \<in> set (popstate_listeners (window h))"
    using assms(3) by (auto simp: w addEventListener_def array_set_def)
  have t: "clamped_target (window h) (- 1) = j"
    using assms(2,3) by (simp add: clamped_target_code i n j_def)
  have "history_state ((window h)\<lparr>index := j\<rparr>) = history_state (w\<lparr>index := j\<rparr>)"
    using assms(2,3)
    by (auto simp: history_state_def w addEventListener_def array_set_def array_get_def j_def)
  with assms(4) have "\<not> IS_MEMORY_HISTORY_STATE (history_state ((window h)\<lparr>index := j\<rparr>))"
    by (simp add: j_def)
  then have g: "getLocation memory_driver a ((window h)\<lparr>index := j\<rparr>)
             = Inl (Error ''navigation out of memory history'')" for a
    by (simp add: memory_getLocation_throws memory_driver_def)
  have "j \<noteq> index (window h)" using assms(2) by (simp add: j_def i)
  with go_fires[of h "- 1" memory_driver] t hp
  have "go_back memory_driver h
          = triggerChange memory_driver POP (h\<lparr>window := (window h)\<lparr>index := j\<rparr>\<rparr>)"
    by (simp add: go_back_def)
  then have "go_back memory_driver h =
           (h\<lparr>window := (window h)\<lparr>index := j\<rparr>, from_location := Some (location h)\<rparr>,
            Some (Error ''navigation out of memory history''))"
    by (simp add: triggerChange_def g)
  then show ?thesis
    by (simp add: j_def memory_getLocation_throws memory_driver_def)
qed

theorem memory_back_raises_witness:
  "createMemoryHistory (Some ''foo?bar'') (Some native_surface)
     = Inr (projr (createMemoryHistory (Some ''foo?bar'') (Some native_surface)))
   \<and> index native_surface = 1 \<and> length (entries native_surface) = 2
   \<and> history_state (native_surface\<lparr>index := 0\<rparr>) = Undefined
   \<and> href (location (projr (createMemoryHistory (Some ''foo?bar'') (Some native_surface))))
       = ''/foo?bar''
   \<and> snd (go_back memory_driver (projr (createMemoryHistory (Some ''foo?bar'') (Some native_surface))))
       = Some (Error ''navigation out of memory history'')"
proof -
  have a: "createMemoryHistory (Some ''foo?bar'') (Some native_surface)
     = Inr (projr (createMemoryHistory (Some ''foo?bar'') (Some native_surface)))" by code_simp
  have b: "index native_surface = 1" "length (entries native_surface) = 2" by code_simp+
  have c: "history_state (native_surface\<lparr>index := 0\<rparr>) = Undefined" by code_simp
  have d: "href (location (projr (createMemoryHistory (Some ''foo?bar'') (Some native_surface))))
       = ''/foo?bar''" by code_simp
  from b c have e: "0 < index native_surface" "index native_surface < length (entries native_surface)"
    "\<not> IS_MEMORY_HISTORY_STATE (history_state (native_surface\<lparr>index := index native_surface - 1\<rparr>))"
    by simp_all
  from memory_back_raises[OF a e] a b c d show ?thesis by simp
qed

section \<open>Length and cursor\<close>

lemma simulated_fresh: "simulated_surface (createMockedWindow i)"
  by (simp add: simulated_surface_def createMockedWindow_def)

lemma is_href_entryE: "is_href_entry e \<Longrightarrow> \<exists>s st. e = Some (Href s, st)"
  by (cases e rule: is_href_entry.cases) auto

lemma simulated_new_entry:
  assumes "simulated_surface w"
  shows "\<exists>s. new_entry_location w loc = Inr (Href s)"
proof -
  from assms have ne: "entries w \<noteq> []" by (auto simp: simulated_surface_def)
  with assms have "is_href_entry (last (entries w))"
    by (simp add: simulated_surface_def list_all_iff)
  then obtain s st where "last (entries w) = Some (Href s, st)"
    using is_href_entryE by blast
  with ne show ?thesis
    by (cases loc)
       (auto simp: new_entry_location_def resolve_location_def entry_location_at_def
          array_get_def last_conv_nth)
qed

lemma simulated_pushState:
  assumes "simulated_surface w"
  shows "\<exists>s. pushState st loc w
            = (w\<lparr>entries := take (index w + 1) (entries w) @ [Some (Href s, st)],
                 index := index w + 1\<rparr>, None)"
    and "simulated_surface (fst (pushState st loc w))"
proof -
  from simulated_new_entry[OF assms] obtain s where s: "new_entry_location w loc = Inr (Href s)"
    by blast
  from assms have ne: "entries w \<noteq> []" by (auto simp: simulated_surface_def)
  with s show "\<exists>s. pushState st loc w
            = (w\<lparr>entries := take (index w + 1) (entries w) @ [Some (Href s, st)],
                 index := index w + 1\<rparr>, None)"
    by (intro exI[of _ s]) (simp add: pushState_new)
  from assms ne show "simulated_surface (fst (pushState st loc w))"
    by (auto simp: pushState_new[OF s] simulated_surface_def list_all_iff dest: in_set_takeD)
qed

lemma simulated_replaceState:
  assumes "simulated_surface w"
  shows "snd (replaceState st loc w) = None \<and> simulated_surface (fst (replaceState st loc w))
         \<and> length (entries (fst (replaceState st loc w))) = length (entries w)"
proof -
  from simulated_new_entry[OF assms] obtain s where s: "new_entry_location w loc = Inr (Href s)"
    by blast
  with assms show ?thesis
    by (auto simp: replaceState_def simulated_surface_def array_set_def list_all_iff
             dest!: set_update_subset_insert[THEN subsetD])
qed

lemma simulated_go:
  assumes "simulated_surface w"
  shows "simulated_surface (fst (history_go delta w))"
  using assms
  by (cases delta) (auto simp: history_go_def simulated_surface_def Let_def)

lemma push_ok_window:
  assumes "push d to st h = (h', None)"
  shows "\<exists>s u. pushState s u (window h) = (window h', None)"
  using assms
  by (auto simp: push_def triggerChange_def split: sum.splits prod.splits option.splits) blast

lemma push_ok_length:
  assumes "push d to st h = (h', None)" "index (window h) < length (entries (window h))"
  shows "length_of h' = index (window h) + 2 \<and> index (window h') = index (window h) + 1"
proof -
  from push_ok_window[OF assms(1)] obtain s u where "pushState s u (window h) = (window h', None)"
    by blast
  from pushState_result[OF this] assms(2) show ?thesis
    by (auto simp: length_of_def history_length_def)
qed

lemma go_window: "go d delta h = (h', e) \<Longrightarrow> window h' = fst (history_go delta (window h))"
  by (auto simp: go_def triggerChange_def split: prod.splits if_splits sum.splits)

lemma createMemoryHistory_fresh:
  assumes "createMemoryHistory initial None = Inr h"
  shows "length (entries (window h)) = 1 \<and> index (window h) = 0 \<and> simulated_surface (window h)"
  using assms
  by (auto simp: createMemoryHistory_def createHistory_def replaceState_def createMockedWindow_def
        new_entry_location_def resolve_location_def entry_location_at_def array_get_def
        array_set_def
        addEventListener_def simulated_surface_def
           split: sum.splits prod.splits option.splits if_splits)

lemma memory_push_foo_simulated:
  assumes "simulated_surface (window h)"
  shows "push memory_driver ''/foo'' st h = (fst (push memory_driver ''/foo'' st h), None)
         \<and> simulated_surface (window (fst (push memory_driver ''/foo'' st h)))"
proof -
  from assms have v: "index (window h) < length (entries (window h))"
    and ne: "entries (window h) \<noteq> []"
    by (auto simp: simulated_surface_def)
  with assms have "is_href_entry (last (entries (window h)))"
    by (simp add: simulated_surface_def list_all_iff)
  then have t: "last (entries (window h)) \<noteq> None"
    using is_href_entryE by fastforce
  from memory_push_foo[OF v t, of st]
  have p: "push memory_driver ''/foo'' st h = (fst (push memory_driver ''/foo'' st h), None)"
    by auto
  from push_ok_window[OF p] obtain s u
    where "pushState s u (window h) = (window (fst (push memory_driver ''/foo'' st h)), None)"
    by blast
  with simulated_pushState(2)[OF assms, of s u] p show ?thesis by simp
qed

text \<open>
  C6. A memory engine on its own new mocked window has length 1. After five pushes that
  return normally its length is 6 and its cursor 5; \<open>go(-5)\<close> brings the cursor to 0,
  and one more push leaves length 2 and cursor 1. The reason: on a simulated surface
  (every window that \<open>createMockedWindow\<close> and the calls on it give) \<open>pushState\<close>
  never throws, keeps the entries up to the cursor, drops the rest, appends the new
  entry and advances the cursor; and \<open>pushState\<close>, \<open>replaceState\<close> and \<open>go\<close> all give
  a simulated surface again, its cursor on an entry.
\<close>

theorem length_tracks_pushes:
  assumes "createMemoryHistory initial None = Inr h0"
      and "push memory_driver t1 s1 h0 = (h1, None)"
      and "push memory_driver t2 s2 h1 = (h2, None)"
      and "push memory_driver t3 s3 h2 = (h3, None)"
      and "push memory_driver t4 s4 h3 = (h4, None)"
      and "push memory_driver t5 s5 h4 = (h5, None)"
      and "go memory_driver (Some (- 5)) h5 = (h6, e6)"
      and "push memory_driver t6 s6 h6 = (h7, None)"
  shows "length_of h0 = 1 \<and> length_of h5 = 6 \<and> length_of h7 = 2
         \<and> index (window h0) = 0 \<and> index (window h5) = 5 \<and> index (window h6) = 0
         \<and> index (window h7) = 1
         \<and> simulated_surface (createMockedWindow i)
         \<and> (simulated_surface w \<longrightarrow>
              index w < length (entries w)
              \<and> (\<exists>s. pushState st loc w
                        = (w\<lparr>entries := take (index w + 1) (entries w) @ [Some (Href s, st)],
                             index := index w + 1\<rparr>, None))
              \<and> simulated_surface (fst (pushState st loc w))
              \<and> snd (replaceState st loc w) = None
              \<and> simulated_surface (fst (replaceState st loc w))
              \<and> simulated_surface (fst (history_go delta w)))"
proof -
  from createMemoryHistory_fresh[OF assms(1)]
  have a0: "length (entries (window h0)) = 1" "index (window h0) = 0" by simp_all
  from push_ok_length[OF assms(2)] a0
  have a1: "length (entries (window h1)) = 2" "index (window h1) = 1"
    by (simp_all add: length_of_def history_length_def)
  from push_ok_length[OF assms(3)] a1
  have a2: "length (entries (window h2)) = 3" "index (window h2) = 2"
    by (simp_all add: length_of_def history_length_def)
  from push_ok_length[OF assms(4)] a2
  have a3: "length (entries (window h3)) = 4" "index (window h3) = 3"
    by (simp_all add: length_of_def history_length_def)
  from push_ok_length[OF assms(5)] a3
  have a4: "length (entries (window h4)) = 5" "index (window h4) = 4"
    by (simp_all add: length_of_def history_length_def)
  from push_ok_length[OF assms(6)] a4
  have a5: "length (entries (window h5)) = 6" "index (window h5) = 5"
    by (simp_all add: length_of_def history_length_def)
  from go_window[OF assms(7)] a5
  have a6: "length (entries (window h6)) = 6" "index (window h6) = 0"
    by (simp_all add: history_go_def Let_def)
  from push_ok_length[OF assms(8)] a6
  have a7: "length (entries (window h7)) = 2" "index (window h7) = 1"
    by (simp_all add: length_of_def history_length_def)
  have inv: "index w < length (entries w)
              \<and> (\<exists>s. pushState st loc w
                        = (w\<lparr>entries := take (index w + 1) (entries w) @ [Some (Href s, st)],
                             index := index w + 1\<rparr>, None))
              \<and> simulated_surface (fst (pushState st loc w))
              \<and> snd (replaceState st loc w) = None
              \<and> simulated_surface (fst (replaceState st loc w))
              \<and> simulated_surface (fst (history_go delta w))"
    if "simulated_surface w"
    using that simulated_pushState[OF that, of st loc] simulated_replaceState[OF that, of st loc]
      simulated_go[OF that, of delta]
    by (simp add: simulated_surface_def)
  from a0 a5 a6 a7 inv show ?thesis
    by (simp add: length_of_def history_length_def simulated_fresh)
qed

theorem length_tracks_pushes_witness:
  "createMemoryHistory None None = Inr tracked_0
   \<and> push memory_driver ''/foo'' Undefined tracked_0 = (tracked_1, None)
   \<and> push memory_driver ''/foo'' Undefined tracked_1 = (tracked_2, None)
   \<and> push memory_driver ''/foo'' Undefined tracked_2 = (tracked_3, None)
   \<and> push memory_driver ''/foo'' Undefined tracked_3 = (tracked_4, None)
   \<and> push memory_driver ''/foo'' Undefined tracked_4 = (tracked_5, None)
   \<and> push memory_driver ''/foo'' Undefined tracked_6 = (tracked_7, None)
   \<and> length_of tracked_0 = 1 \<and> length_of tracked_5 = 6 \<and> length_of tracked_7 = 2
   \<and> simulated_surface (window tracked_7)
   \<and> index (window tracked_7) < length (entries (window tracked_7))"
proof -
  have c: "createMemoryHistory None None = Inr tracked_0" by code_simp
  from createMemoryHistory_fresh[OF c] have s0: "simulated_surface (window tracked_0)" by simp
  from memory_push_foo_simulated[OF s0, of Undefined]
  have p1: "push memory_driver ''/foo'' Undefined tracked_0 = (tracked_1, None)"
    and s1: "simulated_surface (window tracked_1)" by (simp_all add: tracked_1_def)
  from memory_push_foo_simulated[OF s1, of Undefined]
  have p2: "push memory_driver ''/foo'' Undefined tracked_1 = (tracked_2, None)"
    and s2: "simulated_surface (window tracked_2)" by (simp_all add: tracked_2_def)
  from memory_push_foo_simulated[OF s2, of Undefined]
  have p3: "push memory_driver ''/foo'' Undefined tracked_2 = (tracked_3, None)"
    and s3: "simulated_surface (window tracked_3)" by (simp_all add: tracked_3_def)
  from memory_push_foo_simulated[OF s3, of Undefined]
  have p4: "push memory_driver ''/foo'' Undefined tracked_3 = (tracked_4, None)"
    and s4: "simulated_surface (window tracked_4)" by (simp_all add: tracked_4_def)
  from memory_push_foo_simulated[OF s4, of Undefined]
  have p5: "push memory_driver ''/foo'' Undefined tracked_4 = (tracked_5, None)"
    and s5: "simulated_surface (window tracked_5)" by (simp_all add: tracked_5_def)
  have g: "go memory_driver (Some (- 5)) tracked_5
             = (tracked_6, snd (go memory_driver (Some (- 5)) tracked_5))"
    by (simp add: tracked_6_def)
  from go_window[OF g] simulated_go[OF s5, of "Some (- 5)"]
  have s6: "simulated_surface (window tracked_6)" by simp
  from memory_push_foo_simulated[OF s6, of Undefined]
  have p7: "push memory_driver ''/foo'' Undefined tracked_6 = (tracked_7, None)"
    and s7: "simulated_surface (window tracked_7)" by (simp_all add: tracked_7_def)
  from length_tracks_pushes[OF c p1 p2 p3 p4 p5 g p7, of "''/''" "window tracked_7" Null None None]
    c p1 p2 p3 p4 p5 p7 s7
  show ?thesis by simp
qed

section \<open>Reading a URL back from its href\<close>

lemma scheme_char_plain:
  assumes "scheme_char c"
  shows "\<not> c0_control_or_space c" "c \<noteq> CHR ''#''" "c \<noteq> CHR ''?''" "c \<noteq> CHR '':''"
proof -
  from assms have "33 \<le> code c \<and> code c \<noteq> 35 \<and> code c \<noteq> 63 \<and> code c \<noteq> 58"
    by (auto simp: scheme_char_def ascii_alpha_def ascii_digit_def code_def)
  then show "\<not> c0_control_or_space c" "c \<noteq> CHR ''#''" "c \<noteq> CHR ''?''" "c \<noteq> CHR '':''"
    by (auto simp: c0_control_or_space_def code_def)
qed

lemma scheme_of_wellformed:
  assumes "wellformed_scheme sch"
  shows "scheme_of (sch @ CHR '':'' # rest) = Some (sch, rest)"
proof -
  from assms obtain a as where s: "sch = a # as" by (cases sch) (auto simp: wellformed_scheme_def)
  from assms s have a: "ascii_alpha a" and as: "\<forall>x \<in> set as. scheme_char x"
    and lc: "map ascii_lowercase (a # as) = a # as"
    by (auto simp: wellformed_scheme_def list_all_iff)
  have nc: "\<not> scheme_char CHR '':''"
    using scheme_char_plain(4)[of "CHR '':''"] by auto
  have d: "dropWhile scheme_char (as @ CHR '':'' # rest) = CHR '':'' # rest"
    using as nc by (simp add: dropWhile_append)
  have t: "takeWhile scheme_char (as @ CHR '':'' # rest) = as"
    using as nc by (simp add: takeWhile_append)
  show ?thesis
    using a lc by (simp add: scheme_of_def s d t)
qed

lemma strip_keeps:
  assumes "p \<noteq> []" "\<forall>c \<in> set p. \<not> c0_control_or_space c"
  shows "\<exists>r. strip_input (p @ t) = p @ r \<and> (t = [] \<longrightarrow> r = [])
             \<and> (t \<noteq> [] \<and> \<not> ascii_tab_or_newline (hd t) \<longrightarrow> r = [] \<or> hd r = hd t)"
proof -
  let ?P = c0_control_or_space
  let ?r = "filter (\<lambda>c. \<not> ascii_tab_or_newline c) (rev (dropWhile ?P (rev t)))"
  from assms have a: "dropWhile ?P (p @ t) = p @ t"
    by (cases p) auto
  from assms have "\<not> ?P (last p)" by simp
  with assms(1) have b: "dropWhile ?P (rev p) = rev p"
    by (cases "rev p") (auto simp: last_rev hd_rev dest: arg_cong[where f=hd])
  have c: "rev (dropWhile ?P (rev t @ rev p)) = p @ rev (dropWhile ?P (rev t))"
    by (auto simp: dropWhile_append b)
  have tn: "\<not> ascii_tab_or_newline x" if "\<not> ?P x" for x
    using that by (auto simp: ascii_tab_or_newline_def c0_control_or_space_def)
  from assms(2) tn have f: "filter (\<lambda>c. \<not> ascii_tab_or_newline c) p = p"
    by (simp add: filter_id_conv)
  have s: "strip_input (p @ t) = p @ ?r"
    by (simp add: strip_input_def a c f)
  have e: "t = [] \<longrightarrow> ?r = []" by simp
  have h: "?r = [] \<or> hd ?r = hd t" if "t \<noteq> []" "\<not> ascii_tab_or_newline (hd t)"
  proof -
    from that obtain x t' where t: "t = x # t'" and x: "\<not> ascii_tab_or_newline x"
      by (cases t) auto
    define dw where "dw = dropWhile ?P (rev t' @ [x])"
    have "dw = [] \<or> (\<exists>ys. dw = ys @ [x])"
      unfolding dw_def by (auto simp: dropWhile_append)
    moreover have "?r = filter (\<lambda>c. \<not> ascii_tab_or_newline c) (rev dw)"
      by (simp add: t dw_def)
    ultimately show ?thesis using x by (auto simp: t)
  qed
  from s e h show ?thesis by blast
qed

lemma host_char_plain:
  assumes "host_char c"
  shows "\<not> c0_control_or_space c" "c \<noteq> CHR ''#''" "c \<noteq> CHR ''?''" "\<not> is_slash sp c"
  using assms by (auto simp: host_char_def is_slash_def)

text \<open>
  How a string parses that starts with a scheme and then with \<open>p\<close>, which holds no
  white space and no delimiter: \<open>r\<close> is what is left of the rest after stripping.
\<close>

lemma parse_after_scheme:
  assumes sch: "wellformed_scheme sch"
    and p: "\<forall>c \<in> set p. c \<noteq> CHR ''#'' \<and> c \<noteq> CHR ''?''"
    and r: "strip_input ((sch @ CHR '':'' # p) @ t) = (sch @ CHR '':'' # p) @ r"
  shows "url_parse ((sch @ CHR '':'' # p) @ t) None
           = parse_with_scheme sch
               (p @ fst (split_first CHR ''?'' (fst (split_first CHR ''#'' r))))
               (map_option (query_encode sch)
                  (snd (split_first CHR ''?'' (fst (split_first CHR ''#'' r)))))
               (map_option (utf8_percent_encode fragment_set) (snd (split_first CHR ''#'' r)))
               None"
proof -
  define a where "a = sch @ CHR '':'' # p"
  define b where "b = fst (split_first CHR ''#'' r)"
  define x where "x = fst (split_first CHR ''?'' b)"
  have ns: "\<not> scheme_char CHR ''#''" "\<not> scheme_char CHR ''?''"
    using scheme_char_plain(2,3) by blast+
  have ph: "CHR ''#'' \<notin> set a" "CHR ''?'' \<notin> set a"
    using sch p ns by (auto simp: a_def wellformed_scheme_def list_all_iff)
  have s1: "split_first CHR ''#'' (a @ r) = (a @ b, snd (split_first CHR ''#'' r))"
    using split_first_prefix[OF ph(1)] by (simp add: b_def)
  have s2: "split_first CHR ''?'' (a @ b) = (a @ x, snd (split_first CHR ''?'' b))"
    using split_first_prefix[OF ph(2)] by (simp add: x_def)
  have so: "scheme_of (a @ x) = Some (sch, p @ x)"
    using scheme_of_wellformed[OF sch, of "p @ x"] by (simp add: a_def)
  from r have r': "strip_input (a @ t) = a @ r" by (simp add: a_def)
  have "url_parse (a @ t) None
          = parse_with_scheme sch (p @ x)
              (map_option (query_encode sch) (snd (split_first CHR ''?'' b)))
              (map_option (utf8_percent_encode fragment_set) (snd (split_first CHR ''#'' r))) None"
    by (simp add: url_parse_def r' s1 s2 so Let_def del: append.simps)
  then show ?thesis by (simp add: a_def x_def b_def)
qed

lemma split_first_start:
  "fst (split_first CHR ''?'' (fst (split_first CHR ''#'' r))) = []
   \<or> (r \<noteq> [] \<and> hd (fst (split_first CHR ''?'' (fst (split_first CHR ''#'' r)))) = hd r)"
  by (cases r) (auto split: prod.splits)

lemma split_first_hd:
  assumes "r = [] \<or> hd r = CHR ''/'' \<or> hd r = CHR ''?'' \<or> hd r = CHR ''#''"
  shows "fst (split_first CHR ''?'' (fst (split_first CHR ''#'' r))) = []
         \<or> hd (fst (split_first CHR ''?'' (fst (split_first CHR ''#'' r)))) = CHR ''/''"
  using assms by (cases r) (auto split: prod.splits)

subsection \<open>With a host\<close>

lemma host_taken:
  assumes "list_all host_char h" "x = [] \<or> hd x = CHR ''/''"
  shows "takeWhile (\<lambda>c. \<not> is_slash sp c) (h @ x) = h"
    and "dropWhile (\<lambda>c. \<not> is_slash sp c) (h @ x) = x"
proof -
  from assms(1) have a: "\<forall>c \<in> set h. \<not> is_slash sp c"
    using host_char_plain(4) by (auto simp: list_all_iff)
  from assms(2) have b: "takeWhile (\<lambda>c. \<not> is_slash sp c) x = []"
    "dropWhile (\<lambda>c. \<not> is_slash sp c) x = x"
    by (cases x; auto simp: is_slash_def)+
  from a b show "takeWhile (\<lambda>c. \<not> is_slash sp c) (h @ x) = h"
    "dropWhile (\<lambda>c. \<not> is_slash sp c) (h @ x) = x"
    by (simp_all add: takeWhile_append dropWhile_append)
qed

lemma after_authority_host:
  assumes "list_all host_char h" "h = [] \<longrightarrow> \<not> is_special sch" "x = [] \<or> hd x = CHR ''/''"
  shows "after_authority sch (h @ x) q f
           = Some \<lparr>url_scheme = sch, url_host = Some h, url_opaque = False,
                   url_path = (if is_special sch then path_state True [] (drop 1 x)
                               else if x = [] then [] else path_state False [] (drop 1 x)),
                   url_query = q, url_fragment = f\<rparr>"
proof -
  from assms(2) have "\<not> (is_special sch \<and> h = [])" by blast
  then show ?thesis
    by (simp add: after_authority_def Let_def host_taken[OF assms(1,3)])
qed

lemma parse_with_scheme_host:
  assumes "wellformed_scheme sch" "list_all host_char h" "h = [] \<longrightarrow> \<not> is_special sch"
    and "x = [] \<or> hd x = CHR ''/''"
  shows "parse_with_scheme sch ((''//'' @ h) @ x) q f None
           = Some \<lparr>url_scheme = sch, url_host = Some h, url_opaque = False,
                   url_path = (if is_special sch then path_state True [] (drop 1 x)
                               else if x = [] then [] else path_state False [] (drop 1 x)),
                   url_query = q, url_fragment = f\<rparr>"
proof -
  from assms(1) have nf: "sch \<noteq> ''file''" by (simp add: wellformed_scheme_def)
  show ?thesis
  proof (cases "is_special sch")
    case True
    with assms(3) obtain c h' where h: "h = c # h'" by (cases h) auto
    with assms(2) have "\<not> is_slash True c" using host_char_plain(4)[of c True] by simp
    then have "dropWhile (is_slash True) (''//'' @ h @ x) = h @ x"
      by (simp add: h is_slash_def)
    with True nf show ?thesis
      using after_authority_host[OF assms(2,3,4), of q f]
      by (simp add: parse_with_scheme_def del: append.simps)
  next
    case False
    with nf show ?thesis
      using after_authority_host[OF assms(2,3,4), of q f]
      by (simp add: parse_with_scheme_def)
  qed
qed

lemma authority_plain:
  assumes "wellformed_scheme sch" "list_all host_char h"
  shows "sch @ CHR '':'' # ''//'' @ h \<noteq> []"
    "\<forall>c \<in> set (sch @ CHR '':'' # ''//'' @ h). \<not> c0_control_or_space c"
    "\<forall>c \<in> set (''//'' @ h). c \<noteq> CHR ''#'' \<and> c \<noteq> CHR ''?''"
  using assms scheme_char_plain(1) host_char_plain(1,2,3)
  by (auto simp: wellformed_scheme_def list_all_iff c0_control_or_space_def code_def)

lemma parse_authority:
  assumes sch: "wellformed_scheme sch" and h: "list_all host_char h"
    and he: "h = [] \<longrightarrow> \<not> is_special sch"
    and t: "t = [] \<or> hd t = CHR ''/'' \<or> hd t = CHR ''?'' \<or> hd t = CHR ''#''"
  shows "\<exists>p q f. url_parse ((sch @ CHR '':'' # ''//'' @ h) @ t) None
           = Some \<lparr>url_scheme = sch, url_host = Some h, url_opaque = False,
                   url_path = p, url_query = q, url_fragment = f\<rparr>"
proof -
  from strip_keeps[OF authority_plain(1,2)[OF sch h], of t] obtain r where
    r: "strip_input ((sch @ CHR '':'' # ''//'' @ h) @ t) = (sch @ CHR '':'' # ''//'' @ h) @ r"
    and e: "t = [] \<longrightarrow> r = []"
    and k: "t \<noteq> [] \<and> \<not> ascii_tab_or_newline (hd t) \<longrightarrow> r = [] \<or> hd r = hd t"
    by blast
  have "r = [] \<or> hd r = CHR ''/'' \<or> hd r = CHR ''?'' \<or> hd r = CHR ''#''"
  proof (cases "t = []")
    case True
    with e show ?thesis by simp
  next
    case False
    with t have "\<not> ascii_tab_or_newline (hd t)"
      by (auto simp: ascii_tab_or_newline_def code_def)
    with False k t show ?thesis by auto
  qed
  from parse_with_scheme_host[OF sch h he split_first_hd[OF this]]
    parse_after_scheme[OF sch authority_plain(3)[OF sch h] r]
  show ?thesis by (simp del: append.simps append_assoc)
qed

subsection \<open>Without a host\<close>

lemma take_clean:
  assumes "clean_start x"
  shows "take 2 (CHR ''/'' # x) \<noteq> ''//''" "take 2 x \<noteq> ''//''" "take 1 x \<noteq> ''/''"
  using assms by (cases x; auto simp: clean_start_def)+

lemma parse_with_scheme_path:
  assumes "wellformed_scheme sch" "\<not> is_special sch" "clean_start x"
  shows "parse_with_scheme sch (''/'' @ x) q f None
           = Some \<lparr>url_scheme = sch, url_host = None, url_opaque = False,
                   url_path = path_state False [] x, url_query = q, url_fragment = f\<rparr>"
  using assms(1,2) take_clean(1)[OF assms(3)]
  by (simp add: parse_with_scheme_def wellformed_scheme_def)

lemma parse_with_scheme_opaque:
  assumes "wellformed_scheme sch" "\<not> is_special sch" "clean_start x"
  shows "parse_with_scheme sch ([] @ x) q f None
           = Some \<lparr>url_scheme = sch, url_host = None, url_opaque = True,
                   url_path = [utf8_percent_encode c0_control_set x],
                   url_query = q, url_fragment = f\<rparr>"
  using assms(1,2) take_clean(2,3)[OF assms(3)]
  by (simp add: parse_with_scheme_def wellformed_scheme_def)

lemma scheme_plain:
  assumes "wellformed_scheme sch" "\<forall>c \<in> set p. \<not> c0_control_or_space c"
  shows "sch @ CHR '':'' # p \<noteq> []" "\<forall>c \<in> set (sch @ CHR '':'' # p). \<not> c0_control_or_space c"
  using assms scheme_char_plain(1)
  by (auto simp: wellformed_scheme_def list_all_iff c0_control_or_space_def code_def)

text \<open>What is left of a rest with a clean start, up to its query, has a clean start.\<close>

lemma clean_rest:
  assumes c: "clean_start t"
    and e: "t = [] \<longrightarrow> r = []"
    and k: "t \<noteq> [] \<and> \<not> ascii_tab_or_newline (hd t) \<longrightarrow> r = [] \<or> hd r = hd t"
  shows "clean_start (fst (split_first CHR ''?'' (fst (split_first CHR ''#'' r))))"
proof (cases "t = [] \<or> r = []")
  case True
  with e show ?thesis by (auto simp: clean_start_def)
next
  case False
  with c k have "hd r \<noteq> CHR ''/''" "\<not> ascii_tab_or_newline (hd r)"
    by (auto simp: clean_start_def)
  with split_first_start[of r] show ?thesis
    by (auto simp: clean_start_def)
qed

lemma path_segments_nonempty: "segs \<noteq> [] \<Longrightarrow> path_segments p segs \<noteq> []"
  by (induction p segs rule: path_segments.induct) (auto simp: Let_def)

lemma clean_encoded:
  assumes "clean_start s"
  shows "clean_start (utf8_percent_encode S s)"
proof (cases s)
  case Nil
  then show ?thesis by (simp add: utf8_percent_encode_def clean_start_def)
next
  case (Cons c cs)
  with assms have "c \<noteq> CHR ''/''" "\<not> ascii_tab_or_newline c"
    by (simp_all add: clean_start_def)
  then show ?thesis
    by (simp add: Cons utf8_percent_encode_def percent_encode_byte_def clean_start_def
          ascii_tab_or_newline_def code_def)
qed

lemma clean_segment:
  assumes "\<forall>c \<in> set s. c \<noteq> CHR ''/''"
  shows "clean_start (utf8_percent_encode path_set s)"
proof (cases s)
  case Nil
  then show ?thesis by (simp add: utf8_percent_encode_def clean_start_def)
next
  case (Cons c cs)
  with assms have c: "c \<noteq> CHR ''/''" by simp
  show ?thesis
  proof (cases "path_set c")
    case True
    then show ?thesis
      by (simp add: Cons utf8_percent_encode_def percent_encode_byte_def clean_start_def
            ascii_tab_or_newline_def code_def)
  next
    case False
    then have "\<not> code c \<le> 31"
      by (auto simp: path_set_def query_set_def c0_control_set_def)
    then have "\<not> ascii_tab_or_newline c"
      by (auto simp: ascii_tab_or_newline_def)
    with False c show ?thesis
      by (simp add: Cons utf8_percent_encode_def clean_start_def)
  qed
qed

lemma path_segments_clean:
  assumes "\<forall>s \<in> set p. clean_start s" "\<forall>s \<in> set segs. \<forall>c \<in> set s. c \<noteq> CHR ''/''"
  shows "\<forall>s \<in> set (path_segments p segs). clean_start s"
  using assms
proof (induction p segs rule: path_segments.induct)
  case (1 p)
  then show ?case by simp
next
  case (2 p s)
  have e: "clean_start []" by (simp add: clean_start_def)
  from 2 have "clean_start (utf8_percent_encode path_set s)"
    by (intro clean_segment) simp
  with 2(1) e show ?case
    by (auto simp: Let_def dest: in_set_butlastD)
next
  case (3 p s v va)
  from 3(5) have cs: "clean_start (utf8_percent_encode path_set s)"
    by (intro clean_segment) simp
  have b: "\<forall>s \<in> set (butlast p). clean_start s"
    using 3(4) by (auto dest: in_set_butlastD)
  have a: "\<forall>s \<in> set (p @ [utf8_percent_encode path_set s]). clean_start s"
    using 3(4) cs by auto
  have r: "\<forall>s \<in> set (v # va). \<forall>c \<in> set s. c \<noteq> CHR ''/''" using 3(5) by simp
  show ?case
    using 3(1)[OF refl _ b r] 3(2)[OF refl _ _ 3(4) r] 3(3)[OF refl _ _ a r]
    by (simp add: Let_def)
qed

lemma path_state_clean:
  "path_state False [] x \<noteq> [] \<and> clean_start (hd (path_state False [] x))"
proof -
  have sl: "is_slash False = (\<lambda>c. c = CHR ''/'')" by (auto simp: is_slash_def)
  have n: "path_segments [] (split_on (\<lambda>c. c = CHR ''/'') x) \<noteq> []"
    by (rule path_segments_nonempty) (rule split_on_nonempty)
  have "\<forall>s \<in> set (split_on (\<lambda>c. c = CHR ''/'') x). \<forall>c \<in> set s. c \<noteq> CHR ''/''"
    using split_on_free[of "\<lambda>c. c = CHR ''/''" x] by simp
  from path_segments_clean[OF _ this, of "[]"] n show ?thesis
    by (simp add: path_state_def sl)
qed

subsection \<open>The three forms\<close>

lemma href_with_host:
  assumes "url_host u = Some h" "\<not> url_opaque u"
  shows "\<exists>t. url_href u = (url_scheme u @ CHR '':'' # ''//'' @ h) @ t
             \<and> (t = [] \<or> hd t = CHR ''/'' \<or> hd t = CHR ''?'' \<or> hd t = CHR ''#'')"
proof -
  define t where "t = url_pathname u
     @ (case url_query u of None \<Rightarrow> [] | Some q \<Rightarrow> CHR ''?'' # q)
     @ (case url_fragment u of None \<Rightarrow> [] | Some f \<Rightarrow> CHR ''#'' # f)"
  have p: "url_pathname u = [] \<or> hd (url_pathname u) = CHR ''/''"
    using assms(2) by (cases "url_path u") (simp_all add: url_pathname_def)
  have "t = [] \<or> hd t = CHR ''/'' \<or> hd t = CHR ''?'' \<or> hd t = CHR ''#''"
    using p by (cases "url_pathname u"; cases "url_query u"; cases "url_fragment u")
               (simp_all add: t_def)
  moreover have "url_href u = (url_scheme u @ CHR '':'' # ''//'' @ h) @ t"
    using assms by (simp add: url_href_def t_def)
  ultimately show ?thesis by blast
qed

lemma clean_tail:
  "clean_start ((case q of None \<Rightarrow> [] | Some q \<Rightarrow> CHR ''?'' # q)
                @ (case f of None \<Rightarrow> [] | Some f \<Rightarrow> CHR ''#'' # f))"
  by (cases q; cases f) (simp_all add: clean_start_def ascii_tab_or_newline_def code_def)

lemma clean_append: "clean_start s \<Longrightarrow> s \<noteq> [] \<or> clean_start t \<Longrightarrow> clean_start (s @ t)"
  by (cases s) (auto simp: clean_start_def)

lemma href_with_path:
  assumes "url_host u = None" "\<not> url_opaque u" "url_path u \<noteq> []" "clean_start (hd (url_path u))"
  shows "\<exists>t. url_href u = (url_scheme u @ CHR '':'' # ''/'') @ t \<and> clean_start t"
proof -
  define qf where "qf = (case url_query u of None \<Rightarrow> [] | Some q \<Rightarrow> CHR ''?'' # q)
     @ (case url_fragment u of None \<Rightarrow> [] | Some f \<Rightarrow> CHR ''#'' # f)"
  have cq: "clean_start qf" unfolding qf_def by (rule clean_tail)
  from assms(3) obtain s ss where p: "url_path u = s # ss" by (cases "url_path u") auto
  have hr: "url_href u = url_scheme u @ CHR '':'' #
              (if ss \<noteq> [] \<and> s = [] then ''/.'' else [])
              @ CHR ''/'' # s @ concat (map (\<lambda>s. CHR ''/'' # s) ss) @ qf"
    using assms(1,2) by (simp add: url_href_def url_pathname_def p qf_def)
  show ?thesis
  proof (cases "s = []")
    case True
    show ?thesis
    proof (cases "ss = []")
      case True
      with \<open>s = []\<close> hr cq show ?thesis by simp
    next
      case False
      with \<open>s = []\<close> hr have "url_href u = (url_scheme u @ CHR '':'' # ''/'')
              @ (CHR ''.'' # CHR ''/'' # concat (map (\<lambda>s. CHR ''/'' # s) ss) @ qf)"
        by simp
      moreover have "clean_start (CHR ''.'' # CHR ''/'' # concat (map (\<lambda>s. CHR ''/'' # s) ss) @ qf)"
        by (simp add: clean_start_def ascii_tab_or_newline_def code_def)
      ultimately show ?thesis by blast
    qed
  next
    case False
    with hr have "url_href u = (url_scheme u @ CHR '':'' # ''/'')
              @ (s @ concat (map (\<lambda>s. CHR ''/'' # s) ss) @ qf)"
      by simp
    moreover from assms(4) False have "clean_start (s @ concat (map (\<lambda>s. CHR ''/'' # s) ss) @ qf)"
      by (intro clean_append) (simp_all add: p)
    ultimately show ?thesis by blast
  qed
qed

lemma href_opaque:
  assumes "url_host u = None" "url_opaque u" "clean_start (concat (url_path u))"
  shows "\<exists>t. url_href u = (url_scheme u @ CHR '':'' # []) @ t \<and> clean_start t"
proof -
  define qf where "qf = (case url_query u of None \<Rightarrow> [] | Some q \<Rightarrow> CHR ''?'' # q)
     @ (case url_fragment u of None \<Rightarrow> [] | Some f \<Rightarrow> CHR ''#'' # f)"
  have cq: "clean_start qf" unfolding qf_def by (rule clean_tail)
  have "url_href u = (url_scheme u @ CHR '':'' # []) @ (concat (url_path u) @ qf)"
    using assms(1,2) by (simp add: url_href_def url_pathname_def qf_def)
  moreover have "clean_start (concat (url_path u) @ qf)"
    using assms(3) cq by (intro clean_append) simp_all
  ultimately show ?thesis by blast
qed

text \<open>A readable URL is read back from its href as a readable URL of the same form.\<close>

lemma readable_parses:
  assumes "readable u"
  shows "\<exists>b. url_parse (url_href u) None = Some b \<and> readable b
             \<and> url_scheme b = url_scheme u \<and> url_host b = url_host u
             \<and> url_opaque b = url_opaque u"
proof -
  from assms have sch: "wellformed_scheme (url_scheme u)" by (simp add: readable_def)
  show ?thesis
  proof (cases "url_host u")
    case (Some h)
    with assms have h: "list_all host_char h" "h = [] \<longrightarrow> \<not> is_special (url_scheme u)"
      and no: "\<not> url_opaque u"
      by (simp_all add: readable_def)
    from href_with_host[OF Some no] obtain t where
      t: "url_href u = (url_scheme u @ CHR '':'' # ''//'' @ h) @ t"
         "t = [] \<or> hd t = CHR ''/'' \<or> hd t = CHR ''?'' \<or> hd t = CHR ''#''"
      by blast
    from parse_authority[OF sch h t(2)] obtain p q f where
      "url_parse (url_href u) None
         = Some \<lparr>url_scheme = url_scheme u, url_host = Some h, url_opaque = False,
                 url_path = p, url_query = q, url_fragment = f\<rparr>"
      by (auto simp: t(1))
    with sch h Some no show ?thesis by (simp add: readable_def)
  next
    case None
    with assms have ns: "\<not> is_special (url_scheme u)" by (simp add: readable_def)
    have pl: "\<forall>c \<in> set ''/''. \<not> c0_control_or_space c" "\<forall>c \<in> set ''/''. c \<noteq> CHR ''#'' \<and> c \<noteq> CHR ''?''"
      "\<forall>c \<in> set ([] :: string). \<not> c0_control_or_space c"
      "\<forall>c \<in> set ([] :: string). c \<noteq> CHR ''#'' \<and> c \<noteq> CHR ''?''"
      by (simp_all add: c0_control_or_space_def code_def)
    show ?thesis
    proof (cases "url_opaque u")
      case False
      with assms None have "url_path u \<noteq> []" "clean_start (hd (url_path u))"
        by (simp_all add: readable_def)
      from href_with_path[OF None False this] obtain t where
        t: "url_href u = (url_scheme u @ CHR '':'' # ''/'') @ t" "clean_start t"
        by blast
      from strip_keeps[OF scheme_plain[OF sch pl(1)], of t] obtain r where
        r: "strip_input ((url_scheme u @ CHR '':'' # ''/'') @ t)
              = (url_scheme u @ CHR '':'' # ''/'') @ r"
        and e: "t = [] \<longrightarrow> r = []"
        and k: "t \<noteq> [] \<and> \<not> ascii_tab_or_newline (hd t) \<longrightarrow> r = [] \<or> hd r = hd t"
        by blast
      from parse_after_scheme[OF sch pl(2) r]
        parse_with_scheme_path[OF sch ns clean_rest[OF t(2) e k]]
      obtain q f where
        "url_parse (url_href u) None
           = Some \<lparr>url_scheme = url_scheme u, url_host = None, url_opaque = False,
                   url_path = path_state False []
                     (fst (split_first CHR ''?'' (fst (split_first CHR ''#'' r)))),
                   url_query = q, url_fragment = f\<rparr>"
        by (simp add: t(1))
      with sch ns None False path_state_clean show ?thesis
        by (simp add: readable_def)
    next
      case True
      with assms None have "clean_start (concat (url_path u))"
        by (simp add: readable_def)
      from href_opaque[OF None True this] obtain t where
        t: "url_href u = (url_scheme u @ CHR '':'' # []) @ t" "clean_start t"
        by blast
      from strip_keeps[OF scheme_plain[OF sch pl(3)], of t] obtain r where
        r: "strip_input ((url_scheme u @ CHR '':'' # []) @ t)
              = (url_scheme u @ CHR '':'' # []) @ r"
        and e: "t = [] \<longrightarrow> r = []"
        and k: "t \<noteq> [] \<and> \<not> ascii_tab_or_newline (hd t) \<longrightarrow> r = [] \<or> hd r = hd t"
        by blast
      note c = clean_rest[OF t(2) e k]
      from parse_after_scheme[OF sch pl(4) r] parse_with_scheme_opaque[OF sch ns c]
      obtain q f where
        "url_parse (url_href u) None
           = Some \<lparr>url_scheme = url_scheme u, url_host = None, url_opaque = True,
                   url_path = [utf8_percent_encode c0_control_set
                     (fst (split_first CHR ''?'' (fst (split_first CHR ''#'' r))))],
                   url_query = q, url_fragment = f\<rparr>"
        by (simp add: t(1))
      with sch ns None True clean_encoded[OF c, of c0_control_set] show ?thesis
        by (simp add: readable_def)
    qed
  qed
qed

lemma readable_base: "readable b \<Longrightarrow> url_scheme b \<noteq> ''file''"
  by (simp add: readable_def wellformed_scheme_def)

lemma readable_fragment: "readable (b\<lparr>url_fragment := f\<rparr>) = readable b"
  by (cases "url_host b") (simp_all add: readable_def)

section \<open>Resolving against a URL\<close>

lemma path_state_foo: "path_state sp [] ''foo'' = [''foo'']"
  by (simp add: path_state_def is_slash_def utf8_percent_encode_def path_set_def query_set_def
        c0_control_set_def code_def double_dot_def single_dot_def ascii_lowercase_def Let_def)

lemma relative_foo_any:
  assumes a: "\<not> url_opaque b" "url_scheme b \<noteq> ''file''"
  shows "url_parse ''/foo'' (Some b)
           = Some (b\<lparr>url_path := [''foo''], url_query := None, url_fragment := None\<rparr>)"
proof -
  have s: "strip_input ''/foo'' = ''/foo''"
    by (simp add: strip_input_def c0_control_or_space_def ascii_tab_or_newline_def code_def)
  have r: "relative_url b ''/foo'' None None
             = Some (b\<lparr>url_path := [''foo''], url_query := None, url_fragment := None\<rparr>)"
    by (simp add: relative_url_def Let_def is_slash_def path_state_foo)
  show ?thesis
    using a by (simp add: url_parse_def s scheme_of_def ascii_alpha_def code_def
                  parse_no_scheme_def r Let_def)
qed

lemma strip_input_ends:
  assumes "s \<noteq> []" "\<not> c0_control_or_space (hd s)" "\<not> c0_control_or_space (last s)"
    and "\<forall>c \<in> set s. \<not> ascii_tab_or_newline c"
  shows "strip_input s = s"
proof -
  from assms(1,2) have a: "dropWhile c0_control_or_space s = s" by (cases s) auto
  from assms(1,3) have b: "dropWhile c0_control_or_space (rev s) = rev s"
    by (cases "rev s") (auto simp: last_rev hd_rev dest: arg_cong[where f=hd])
  from assms(4) show ?thesis by (simp add: strip_input_def a b filter_id_conv)
qed

text \<open>A reference that is a fragment only resolves against an opaque path as well.\<close>

lemma relative_fragment:
  assumes a: "url_scheme b \<noteq> ''file''" and f: "f \<noteq> []" "\<not> c0_control_or_space (last f)"
    "\<forall>c \<in> set f. \<not> ascii_tab_or_newline c"
  shows "url_parse (CHR ''#'' # f) (Some b)
           = Some (b\<lparr>url_fragment := Some (utf8_percent_encode fragment_set f)\<rparr>)"
proof -
  have s: "strip_input (CHR ''#'' # f) = CHR ''#'' # f"
    using f by (intro strip_input_ends)
               (simp_all add: c0_control_or_space_def ascii_tab_or_newline_def code_def)
  show ?thesis
    using a by (simp add: url_parse_def s scheme_of_def parse_no_scheme_def relative_url_def
                  Let_def)
qed


lemma resolve_fragment:
  assumes u: "readable u" and f: "f \<noteq> []" "\<not> c0_control_or_space (last f)"
    "\<forall>c \<in> set f. \<not> ascii_tab_or_newline c"
  shows "\<exists>b. readable b
           \<and> resolve_location (Url u) (Some (CHR ''#'' # f))
               = Inr (Url (b\<lparr>url_fragment := Some (utf8_percent_encode fragment_set f)\<rparr>))"
proof -
  from readable_parses[OF u] obtain b where
    b: "url_parse (url_href u) None = Some b" "readable b"
    by blast
  from relative_fragment[OF readable_base[OF b(2)] f] b show ?thesis
    by (auto simp: resolve_location_def URL_def)
qed


section \<open>The hash driver\<close>

lemma scheme_http: "scheme_of (''http://h.com'' @ a) = Some (''http'', ''//h.com'' @ a)"
  by (simp add: scheme_of_def scheme_char_def ascii_alpha_def ascii_digit_def code_def
        ascii_lowercase_def)

text \<open>The base of the hash driver always parses, whatever the current href.\<close>

lemma hash_base_parses:
  "\<exists>b. url_parse (''http://h.com'' @ hr) None = Some b \<and> url_scheme b = ''http''
       \<and> \<not> url_opaque b"
proof -
  obtain s' where s: "strip_input (''http://h.com'' @ hr) = ''http://h.com'' @ s'"
    using strip_input_prefix[of "''http://h.com''" hr]
    by (auto simp: c0_control_or_space_def ascii_tab_or_newline_def code_def)
  have aa: "\<And>a q f. \<exists>b. after_authority ''http'' (dropWhile (is_slash True) (''//h.com'' @ a)) q f
                              = Some b
          \<and> url_scheme b = ''http'' \<and> \<not> url_opaque b"
    by (simp add: after_authority_def is_special_def is_slash_def Let_def)
  have sp: "is_special ''http''" by (simp add: is_special_def)
  show ?thesis
    using aa
    by (simp add: url_parse_def s split_first_prefix scheme_http parse_with_scheme_def sp
           Let_def del: append.simps split_first.simps)
qed

lemma hash_prepareUrl_foo: "hash_prepareUrl s ''/foo'' l = Inr (Some ''#/foo'')"
proof -
  obtain b where b: "url_parse (''http://h.com'' @ href l) None = Some b"
    "url_scheme b = ''http''" "\<not> url_opaque b"
    using hash_base_parses by blast
  then have "url_scheme b \<noteq> ''file''" by simp
  from relative_foo_any[OF b(3) this] b show ?thesis
    by (simp add: hash_prepareUrl_def URL_def url_pathname_def url_search_def url_hash_def
          del: append.simps)
qed

lemma url_bar_on:
  "URL ''#bar'' (Some ''http://h.com/foo'')
     = Inr \<lparr>url_scheme = ''http'', url_host = Some ''h.com'', url_opaque = False,
            url_path = [''foo''], url_query = None, url_fragment = Some ''bar''\<rparr>"
  "URL ''#bar'' (Some ''http://h.com/f#o'')
     = Inr \<lparr>url_scheme = ''http'', url_host = Some ''h.com'', url_opaque = False,
            url_path = [''f''], url_query = None, url_fragment = Some ''bar''\<rparr>"
  "URL ''#bar'' (Some ''http://h.com/#oo'')
     = Inr \<lparr>url_scheme = ''http'', url_host = Some ''h.com'', url_opaque = False,
            url_path = [[]], url_query = None, url_fragment = Some ''bar''\<rparr>"
  by code_simp+

lemma hash_prepareUrl_bar:
  assumes "href l = ''/foo'' \<and> p = ''/foo'' \<or> href l = ''/f#o'' \<and> p = ''/f''
           \<or> href l = ''/#oo'' \<and> p = ''/''"
  shows "hash_prepareUrl s ''#bar'' l = Inr (Some (CHR ''#'' # p @ s @ ''bar''))"
  using assms
  by (elim disjE conjE)
     (simp_all add: hash_prepareUrl_def url_bar_on[simplified] url_pathname_def url_search_def
        url_hash_def)

lemma createLocation_read:
  "createLocation a ''/foo#bar'' st
     = Inr \<lparr>ref = a, href = ''/foo#bar'', path = ''/foo'', search = [], hash = ''#bar'', state = st\<rparr>"
  "createLocation a ''/f#bar'' st
     = Inr \<lparr>ref = a, href = ''/f#bar'', path = ''/f'', search = [], hash = ''#bar'', state = st\<rparr>"
  "createLocation a ''/#bar'' st
     = Inr \<lparr>ref = a, href = ''/#bar'', path = ''/'', search = [], hash = ''#bar'', state = st\<rparr>"
  "createLocation a ''/f#o'' st
     = Inr \<lparr>ref = a, href = ''/f#o'', path = ''/f'', search = [], hash = ''#o'', state = st\<rparr>"
  "createLocation a ''/#oo'' st
     = Inr \<lparr>ref = a, href = ''/#oo'', path = ''/'', search = [], hash = ''#oo'', state = st\<rparr>"
  by code_simp+

section \<open>Escaping and \<open>decodeURIComponent\<close>\<close>

lemma of_char_char_of_small: "n < 256 \<Longrightarrow> code (char_of n) = n"
  by (simp add: code_def)

lemma hex_round_trip: "n < 16 \<Longrightarrow> hex_value (hex_digit n) = Some n"
  by (auto simp: hex_value_def hex_digit_def of_char_char_of_small)

lemma char_of_code: "char_of (16 * (code c div 16) + code c mod 16) = c"
  by (simp add: code_def)

lemma char_of_code_id: "char_of (code c) = c"
  by (simp add: code_def)

lemma code_less: "code c < 256"
  by (simp add: code_def)

lemma percent_decode_byte:
  "percent_decode (percent_encode_byte c @ t) = map_option (\<lambda>xs. (c, True) # xs) (percent_decode t)"
proof -
  have h: "hex_value (hex_digit (code c div 16)) = Some (code c div 16)"
    "hex_value (hex_digit (code c mod 16)) = Some (code c mod 16)"
    using code_less[of c] by (simp_all add: hex_round_trip)
  show ?thesis
    by (simp add: percent_encode_byte_def h char_of_code char_of_code_id)
qed

lemma percent_decode_encoded:
  assumes "CHR ''%'' \<notin> set f"
  shows "percent_decode (utf8_percent_encode S f @ t)
           = map_option (\<lambda>xs. map (\<lambda>c. (c, S c)) f @ xs) (percent_decode t)"
  using assms
proof (induction f)
  case Nil
  then show ?case by (simp add: utf8_percent_encode_def option.map_ident)
next
  case (Cons c f)
  then have ih: "percent_decode (utf8_percent_encode S f @ t)
           = map_option (\<lambda>xs. map (\<lambda>c. (c, S c)) f @ xs) (percent_decode t)"
    and c: "c \<noteq> CHR ''%''" by auto
  have e: "utf8_percent_encode S (c # f)
             = (if S c then percent_encode_byte c else [c]) @ utf8_percent_encode S f"
    by (simp add: utf8_percent_encode_def)
  show ?case
  proof (cases "S c")
    case True
    then show ?thesis
      by (cases "percent_decode t")
         (simp_all add: e percent_decode_byte ih del: append.simps)
  next
    case False
    with c show ?thesis
      by (cases "percent_decode t") (simp_all add: e ih)
  qed
qed

lemma wellformed_ascii:
  assumes "\<forall>c \<in> set p. code c < 128"
  shows "utf8_wellformed 0 128 191 (map (\<lambda>c. (c, S c)) p @ xs) = utf8_wellformed 0 128 191 xs"
  using assms by (induction p) auto

lemma escaped_beyond_ascii: "128 \<le> code c \<Longrightarrow> fragment_set c"
  by (simp add: fragment_set_def c0_control_set_def)

lemma wellformed_character:
  assumes "utf8_character s"
  shows "utf8_wellformed 0 128 191 (map (\<lambda>c. (c, fragment_set c)) s @ xs)
           = utf8_wellformed 0 128 191 xs"
proof -
  consider a where "s = [a]" "code a < 128"
    | a b where "s = [a, b]" "194 \<le> code a" "code a \<le> 223" "continuation b"
    | a b c where "s = [a, b, c]"
        "code a = 224 \<and> 160 \<le> code b \<and> code b \<le> 191
         \<or> 225 \<le> code a \<and> code a \<le> 236 \<and> continuation b
         \<or> code a = 237 \<and> 128 \<le> code b \<and> code b \<le> 159
         \<or> 238 \<le> code a \<and> code a \<le> 239 \<and> continuation b" "continuation c"
    | a b c d where "s = [a, b, c, d]"
        "code a = 240 \<and> 144 \<le> code b \<and> code b \<le> 191
         \<or> 241 \<le> code a \<and> code a \<le> 243 \<and> continuation b
         \<or> code a = 244 \<and> 128 \<le> code b \<and> code b \<le> 143" "continuation c" "continuation d"
    using assms by (auto simp: utf8_character_def split: list.splits)
  then show ?thesis
  proof cases
    case 1
    then show ?thesis by simp
  next
    case 2
    then have "fragment_set a" "fragment_set b"
      by (simp_all add: escaped_beyond_ascii continuation_def)
    with 2 show ?thesis by (simp add: continuation_def)
  next
    case 3
    then have e: "fragment_set a" "fragment_set b" "fragment_set c"
      by (auto simp: escaped_beyond_ascii continuation_def)
    from 3(2) show ?thesis
      using 3(1,3) e by (elim disjE) (simp_all add: continuation_def)
  next
    case 4
    then have e: "fragment_set a" "fragment_set b" "fragment_set c" "fragment_set d"
      by (auto simp: escaped_beyond_ascii continuation_def)
    from 4(2) show ?thesis
      using 4(1,3,4) e by (elim disjE) (simp_all add: continuation_def)
  qed
qed

lemma encode_append:
  "utf8_percent_encode S (a @ b) = utf8_percent_encode S a @ utf8_percent_encode S b"
  by (simp add: utf8_percent_encode_def)

text \<open>
  What the window keeps of a fragment made of ASCII text, one character and ASCII text
  again is read back by \<open>decodeURIComponent\<close> as it was written, unless there is a
  \<open>%\<close> in it.
\<close>

lemma decode_round_trip:
  assumes p: "\<forall>c \<in> set p. code c < 128" and r: "\<forall>c \<in> set r. code c < 128"
    and s: "utf8_character s" and n: "CHR ''%'' \<notin> set (p @ s @ r)"
  shows "decodeURIComponent (utf8_percent_encode fragment_set (p @ s @ r)) = Inr (p @ s @ r)"
proof -
  let ?F = "\<lambda>f. map (\<lambda>c. (c, fragment_set c)) f"
  have d: "percent_decode (utf8_percent_encode fragment_set (p @ s @ r)) = Some (?F (p @ s @ r))"
    using percent_decode_encoded[OF n, of fragment_set "[]"] by simp
  have "utf8_wellformed 0 128 191 (?F p @ ?F s @ ?F r @ [])"
    by (simp only: wellformed_ascii[OF p] wellformed_character[OF s] wellformed_ascii[OF r])
       simp
  then have w: "utf8_wellformed 0 128 191 (?F (p @ s @ r))" by simp
  have "map fst (?F (p @ s @ r)) = p @ s @ r" by (simp add: comp_def)
  with d w show ?thesis by (simp add: decodeURIComponent_def del: map_append)
qed

lemma replace_first_found:
  assumes "s \<noteq> []" "hd s \<notin> set p"
  shows "replace_first s t (p @ s @ r) = p @ t @ r"
  using assms
proof (induction p)
  case Nil
  then obtain c cs where e: "s @ r = c # cs" by (cases s) auto
  have a: "take (length s) (c # cs) = s" "drop (length s) (c # cs) = r"
    unfolding e[symmetric] by simp_all
  show ?case
    by (simp only: append_Nil e replace_first.simps a) simp
next
  case (Cons a p)
  then have "take (length s) (a # p @ s @ r) \<noteq> s"
    by (cases s) auto
  with Cons show ?case by simp
qed

lemma replace_first_absent: "\<not> occurs s x \<Longrightarrow> replace_first s t x = x"
  by (induction x) auto

lemma character_hd:
  assumes "utf8_character s"
  shows "s \<noteq> []" "s = [hd s] \<or> 128 \<le> code (hd s)"
  using assms by (auto simp: utf8_character_def split: list.splits)

lemma character_plain:
  assumes "utf8_character s" "\<not> lost_substitute s"
  shows "CHR ''%'' \<notin> set s" "\<forall>c \<in> set s. \<not> ascii_tab_or_newline c" "hd s \<noteq> CHR ''/''"
proof -
  have k: "128 \<le> code c \<Longrightarrow> c \<noteq> CHR ''%'' \<and> \<not> ascii_tab_or_newline c \<and> c \<noteq> CHR ''/''" for c
    by (auto simp: ascii_tab_or_newline_def code_def)
  consider a where "s = [a]" "code a < 128"
    | "\<forall>c \<in> set s. 128 \<le> code c" "s \<noteq> []"
    using assms(1) by (auto simp: utf8_character_def continuation_def split: list.splits)
  then have "CHR ''%'' \<notin> set s \<and> (\<forall>c \<in> set s. \<not> ascii_tab_or_newline c) \<and> hd s \<noteq> CHR ''/''"
  proof cases
    case 1
    have "code a = 9 \<or> code a = 10 \<or> code a = 13 \<Longrightarrow> a = CHR 0x09 \<or> a = CHR 0x0A \<or> a = CHR 0x0D"
      by (auto simp: code_def intro: code_eq)
    with 1 assms(2) show ?thesis
      by (auto simp: lost_substitute_def ascii_tab_or_newline_def)
  next
    case 2
    then have "hd s \<in> set s" by simp
    with 2 k show ?thesis by blast
  qed
  then show "CHR ''%'' \<notin> set s" "\<forall>c \<in> set s. \<not> ascii_tab_or_newline c" "hd s \<noteq> CHR ''/''"
    by simp_all
qed

section \<open>Pushing onto a window\<close>

lemma pushed_entry:
  assumes "index w < length (entries w)"
  shows "array_get (take (index w + 1) (entries w) @ [e]) (index w + 1) = e"
    and "array_get (take (index w + 1) (entries w) @ [e]) (index w)
           = array_get (entries w) (index w)"
    and "last (take (index w + 1) (entries w) @ [e]) = e"
    and "index w + 1 < length (take (index w + 1) (entries w) @ [e])"
  using assms by (simp_all add: array_get_def nth_append)

lemma is_url_entryE:
  assumes "is_url_entry e"
  obtains u st where "e = Some (Url u, st)" "readable u"
  using assms by (cases e rule: is_url_entry.cases) auto


lemma last_entry_location:
  assumes "index w < length (entries w)" "last (entries w) = Some (l, st)"
  shows "entry_location_at w (length (entries w) - 1) = Inr l"
proof -
  from assms(1) have "entries w \<noteq> []" by auto
  with assms(2) show ?thesis
    by (simp add: entry_location_at_def array_get_def last_conv_nth)
qed

lemma encode_nonempty: "f \<noteq> [] \<Longrightarrow> utf8_percent_encode S f \<noteq> []"
  by (cases f) (simp_all add: utf8_percent_encode_def percent_encode_byte_def)

text \<open>
  \<open>push\<close> on a hash engine, when \<open>prepareUrl\<close> gives a URL that is a fragment only and
  the window's last entry holds a URL.
\<close>

lemma hash_push:
  assumes valid: "index (window h) < length (entries (window h))"
    and surf: "is_url_entry (last (entries (window h)))"
    and pu: "hash_prepareUrl s to (location h) = Inr (Some (CHR ''#'' # f))"
    and f: "f \<noteq> []" "\<not> c0_control_or_space (last f)" "\<forall>c \<in> set f. \<not> ascii_tab_or_newline c"
    and dec: "decodeURIComponent (utf8_percent_encode fragment_set f) = Inr g"
    and cl: "createLocation (next_ref h) (replace_first s ''#'' g) st = Inr l1"
  shows "\<exists>b. readable b \<and>
           push (hash_driver s) to st h =
             (h\<lparr>window := (window h)
                    \<lparr>entries := take (index (window h) + 1) (entries (window h))
                       @ [Some (Url (b\<lparr>url_fragment := Some (utf8_percent_encode fragment_set f)\<rparr>),
                                st)],
                      index := index (window h) + 1\<rparr>,
                location := l1, from_location := Some (location h),
                next_ref := next_ref h + 1,
                notified := notified h
                  @ map (\<lambda>x. (x, \<lparr>change_action = PUSH, change_location = l1,
                                   change_from = Some (location h)\<rparr>)) (listeners h)\<rparr>, None)"
proof -
  define ef where "ef = utf8_percent_encode fragment_set f"
  from surf obtain u st0 where u: "last (entries (window h)) = Some (Url u, st0)" "readable u"
    by (rule is_url_entryE)
  from resolve_fragment[OF u(2) f] obtain b where
    b: "readable b"
       "resolve_location (Url u) (Some (CHR ''#'' # f)) = Inr (Url (b\<lparr>url_fragment := Some ef\<rparr>))"
    by (auto simp: ef_def)
  define w1 where "w1 = (window h)
                    \<lparr>entries := take (index (window h) + 1) (entries (window h))
                       @ [Some (Url (b\<lparr>url_fragment := Some ef\<rparr>), st)],
                      index := index (window h) + 1\<rparr>"
  have ne: "new_entry_location (window h) (Some (CHR ''#'' # f)) = Inr (Url (b\<lparr>url_fragment := Some ef\<rparr>))"
    using last_entry_location[OF valid u(1)] b(2) by (simp add: new_entry_location_def)
  have ps: "pushState st (Some (CHR ''#'' # f)) (window h) = (w1, None)"
    using pushState_new[OF ne] by (simp add: w1_def)
  have cur: "array_get (entries w1) (index w1) = Some (Url (b\<lparr>url_fragment := Some ef\<rparr>), st)"
    using pushed_entry(1)[OF valid] by (simp add: w1_def)
  have en: "ef \<noteq> []" using f(1) by (simp add: ef_def encode_nonempty)
  have lh: "location_hash w1 = Inr (CHR ''#'' # ef)"
    using en by (simp add: location_hash_def entry_location_at_def cur url_hash_def)
  have hs: "history_state w1 = st"
    by (simp add: history_state_def cur)
  have g: "getLocation (hash_driver s) (next_ref h) w1 = Inr l1"
    using dec cl by (simp add: hash_driver_def hash_getLocation_def lh hs ef_def)
  have "push (hash_driver s) to st h =
           (h\<lparr>window := w1, location := l1, from_location := Some (location h),
              next_ref := next_ref h + 1,
              notified := notified h
                @ map (\<lambda>x. (x, \<lparr>change_action = PUSH, change_location = l1,
                                 change_from = Some (location h)\<rparr>)) (listeners h)\<rparr>, None)"
    by (rule push_runs[where s = st and u = "Some (CHR ''#'' # f)"])
       (simp_all add: hash_driver_def pu ps g[unfolded hash_driver_def, simplified])
  with b(1) show ?thesis
    unfolding w1_def ef_def by blast
qed



section \<open>Back after a push\<close>



lemma createHashHistory_methods:
  "createHashHistory (Some s) w = Inr (d, h) \<Longrightarrow> d = hash_driver s"
  by (auto simp: createHashHistory_def Let_def split: sum.splits)

lemma createHashHistory_default:
  "createHashHistory None w = createHashHistory (Some [CHR 0xEF, CHR 0xBC, CHR 0x83]) w"
  by (simp add: createHashHistory_def)

text \<open>The test suite's window at \<open>/\<close> ends in an entry that holds a readable URL.\<close>

lemma test_surface_value:
  "test_surface = \<lparr>entries = [Some (Url example_url, Undefined)], index = 0,
                     popstate_listeners = []\<rparr>"
  "readable example_url"
  by code_simp+

lemma fragment_foo:
  "decodeURIComponent (utf8_percent_encode fragment_set ''/foo'') = Inr ''/foo''"
  "utf8_percent_encode fragment_set ''/foo'' = ''/foo''"
  "utf8_percent_encode fragment_set ''/f'' = ''/f''"
  "utf8_percent_encode fragment_set ''/'' = ''/''"
  "utf8_percent_encode fragment_set ''bar'' = ''bar''"
  by code_simp+

text \<open>\<open>push('/foo')\<close> on a hash engine whose substitute does not occur in \<open>/foo\<close>.\<close>

lemma hash_push_foo:
  assumes valid: "index (window h) < length (entries (window h))"
    and surf: "is_url_entry (last (entries (window h)))"
    and cl: "createLocation (next_ref h) (replace_first s ''#'' ''/foo'') st = Inr l1"
  shows "\<exists>b. readable b \<and>
           push (hash_driver s) ''/foo'' st h =
             (h\<lparr>window := (window h)
                    \<lparr>entries := take (index (window h) + 1) (entries (window h))
                       @ [Some (Url (b\<lparr>url_fragment := Some ''/foo''\<rparr>), st)],
                      index := index (window h) + 1\<rparr>,
                location := l1, from_location := Some (location h),
                next_ref := next_ref h + 1,
                notified := notified h
                  @ map (\<lambda>x. (x, \<lparr>change_action = PUSH, change_location = l1,
                                   change_from = Some (location h)\<rparr>)) (listeners h)\<rparr>, None)"
proof -
  have pu: "hash_prepareUrl s ''/foo'' (location h) = Inr (Some (CHR ''#'' # ''/foo''))"
    using hash_prepareUrl_foo[of s "location h"] by simp
  have f: "''/foo'' \<noteq> []" "\<not> c0_control_or_space (last ''/foo'')"
    "\<forall>c \<in> set ''/foo''. \<not> ascii_tab_or_newline c"
    by (simp_all add: c0_control_or_space_def ascii_tab_or_newline_def code_def)
  from hash_push[OF valid surf pu f fragment_foo(1) cl]
  show ?thesis by (simp only: fragment_foo(2))
qed

section \<open>Push and back\<close>




section \<open>The round trip of the hash\<close>

lemma occurs_Cons: "occurs (a # s) x \<Longrightarrow> a \<in> set x"
  by (induction x) auto

lemma occurs_hd: "occurs s x \<Longrightarrow> s \<noteq> [] \<Longrightarrow> hd s \<in> set x"
  using occurs_Cons[of "hd s" "tl s" x] by simp

lemma character_shape:
  assumes "utf8_character s"
  shows "(\<exists>a. s = [a] \<and> code a < 128) \<or> (s \<noteq> [] \<and> 128 \<le> code (hd s))"
  using assms by (auto simp: utf8_character_def split: list.splits)

lemma ascii_foo: "\<forall>c \<in> set ''/foo''. code c < 128"
  by (simp add: code_def)

text \<open>What the first push leaves as the location, by the substitute.\<close>

lemma first_location:
  assumes ch: "utf8_character s" and ok: "\<not> lost_substitute s"
  shows "\<exists>x p. createLocation a (replace_first s ''#'' ''/foo'') st
                 = Inr \<lparr>ref = a, href = x, path = p, search = [], hash = drop (length p) x,
                        state = st\<rparr>
             \<and> (x = ''/foo'' \<and> p = ''/foo'' \<or> x = ''/f#o'' \<and> p = ''/f''
                \<or> x = ''/#oo'' \<and> p = ''/'')
             \<and> hd s \<notin> set p \<and> (\<not> occurs s ''/foo'' \<longrightarrow> p = ''/foo'')"
proof (cases "occurs s ''/foo''")
  case False
  from character_shape[OF ch] have "hd s \<notin> set ''/foo''"
  proof
    assume "\<exists>a. s = [a] \<and> code a < 128"
    then obtain c where "s = [c]" by blast
    with False show ?thesis by auto
  next
    assume "s \<noteq> [] \<and> 128 \<le> code (hd s)"
    with ascii_foo show ?thesis by fastforce
  qed
  then show ?thesis
    by (simp only: replace_first_absent[OF False] createLocation_foo) simp
next
  case True
  from character_shape[OF ch] obtain c where c: "s = [c]"
  proof
    assume "\<exists>a. s = [a] \<and> code a < 128"
    then show ?thesis using that by blast
  next
    assume a: "s \<noteq> [] \<and> 128 \<le> code (hd s)"
    with occurs_hd[OF True] have "hd s \<in> set ''/foo''" by simp
    with ascii_foo a have False by fastforce
    then show ?thesis ..
  qed
  from ok c have "c \<noteq> CHR ''/''" by (auto simp: lost_substitute_def)
  with True c have "c = CHR ''f'' \<or> c = CHR ''o''" by auto
  then show ?thesis
  proof
    assume "c = CHR ''f''"
    then show ?thesis using createLocation_read(5)[of a st] by (simp add: c)
  next
    assume "c = CHR ''o''"
    then show ?thesis using createLocation_read(4)[of a st] by (simp add: c)
  qed
qed

text \<open>
  \<open>push('#bar')\<close> on a hash engine whose location is one that the first push leaves.
\<close>

lemma hash_push_bar:
  assumes valid: "index (window h) < length (entries (window h))"
    and surf: "is_url_entry (last (entries (window h)))"
    and ch: "utf8_character s" and ok: "\<not> lost_substitute s"
    and l: "href (location h) = ''/foo'' \<and> p = ''/foo'' \<or> href (location h) = ''/f#o'' \<and> p = ''/f''
            \<or> href (location h) = ''/#oo'' \<and> p = ''/''"
    and nd: "hd s \<notin> set p"
  shows "\<exists>h2. push (hash_driver s) ''#bar'' st h = (h2, None)
           \<and> location_hash (window h2)
               = Inr (CHR ''#'' # p @ utf8_percent_encode fragment_set s @ ''bar'')
           \<and> location h2 = \<lparr>ref = next_ref h, href = p @ ''#bar'', path = p, search = [],
                              hash = ''#bar'', state = st\<rparr>
           \<and> getLocation (hash_driver s) (next_ref h) (window h2) = Inr (location h2)"
proof -
  define f where "f = p @ s @ ''bar''"
  define l2 where "l2 = \<lparr>ref = next_ref h, href = p @ ''#bar'', path = p, search = [],
                           hash = ''#bar'', state = st\<rparr>"
  from l have pc: "p = ''/foo'' \<or> p = ''/f'' \<or> p = ''/''" by blast
  note sp = character_plain[OF ch ok]
  have pu: "hash_prepareUrl s ''#bar'' (location h) = Inr (Some (CHR ''#'' # f))"
    using hash_prepareUrl_bar[OF l, of s] by (simp add: f_def)
  have f1: "f \<noteq> []" "\<not> c0_control_or_space (last f)"
    by (simp_all add: f_def c0_control_or_space_def code_def)
  have pt: "\<forall>c \<in> set p. \<not> ascii_tab_or_newline c" "\<forall>c \<in> set p. code c < 128"
    "CHR ''%'' \<notin> set p"
    using pc by (auto simp: ascii_tab_or_newline_def code_def)
  have f2: "\<forall>c \<in> set f. \<not> ascii_tab_or_newline c"
    using pt(1) sp(2) by (auto simp: f_def ascii_tab_or_newline_def code_def)
  have r: "\<forall>c \<in> set ''bar''. code c < 128" by (simp add: code_def)
  have n: "CHR ''%'' \<notin> set (p @ s @ ''bar'')" using pt(3) sp(1) by simp
  have dec: "decodeURIComponent (utf8_percent_encode fragment_set f) = Inr f"
    unfolding f_def by (rule decode_round_trip[OF pt(2) r ch n])
  have rf: "replace_first s ''#'' f = p @ ''#bar''"
    using replace_first_found[OF character_hd(1)[OF ch] nd, of "''#''" "''bar''"]
    by (simp add: f_def)
  have cl: "createLocation (next_ref h) (replace_first s ''#'' f) st = Inr l2"
    using pc createLocation_read(1,2,3)[of "next_ref h" st]
    by (auto simp: rf l2_def)
  have ef: "utf8_percent_encode fragment_set f = p @ utf8_percent_encode fragment_set s @ ''bar''"
    using pc by (auto simp: f_def encode_append fragment_foo simp del: append.simps)
  from hash_push[OF valid surf pu f1 f2 dec cl] obtain b where
    b: "push (hash_driver s) ''#bar'' st h =
             (h\<lparr>window := (window h)
                    \<lparr>entries := take (index (window h) + 1) (entries (window h))
                       @ [Some (Url (b\<lparr>url_fragment := Some (utf8_percent_encode fragment_set f)\<rparr>),
                                st)],
                      index := index (window h) + 1\<rparr>,
                location := l2, from_location := Some (location h),
                next_ref := next_ref h + 1,
                notified := notified h
                  @ map (\<lambda>x. (x, \<lparr>change_action = PUSH, change_location = l2,
                                   change_from = Some (location h)\<rparr>)) (listeners h)\<rparr>, None)"
    by blast
  define w2 where "w2 = (window h)
                    \<lparr>entries := take (index (window h) + 1) (entries (window h))
                       @ [Some (Url (b\<lparr>url_fragment := Some (utf8_percent_encode fragment_set f)\<rparr>),
                                st)],
                      index := index (window h) + 1\<rparr>"
  have cur: "array_get (entries w2) (index w2)
               = Some (Url (b\<lparr>url_fragment := Some (utf8_percent_encode fragment_set f)\<rparr>), st)"
    using pushed_entry(1)[OF valid] by (simp add: w2_def)
  have en: "utf8_percent_encode fragment_set f \<noteq> []" using f1(1) by (rule encode_nonempty)
  have lh: "location_hash w2 = Inr (CHR ''#'' # utf8_percent_encode fragment_set f)"
    using en by (simp add: location_hash_def entry_location_at_def cur url_hash_def)
  have hs: "history_state w2 = st"
    by (simp add: history_state_def cur)
  have g: "getLocation (hash_driver s) (next_ref h) w2 = Inr l2"
    using dec cl by (simp add: hash_driver_def hash_getLocation_def lh hs)
  define h2 where "h2 = h\<lparr>window := w2, location := l2, from_location := Some (location h),
                next_ref := next_ref h + 1,
                notified := notified h
                  @ map (\<lambda>x. (x, \<lparr>change_action = PUSH, change_location = l2,
                                   change_from = Some (location h)\<rparr>)) (listeners h)\<rparr>"
  have b': "push (hash_driver s) ''#bar'' st h = (h2, None)"
    unfolding h2_def w2_def by (rule b)
  have "window h2 = w2" "location h2 = l2" by (simp_all add: h2_def)
  with b' lh g ef show ?thesis
    by (intro exI[of _ h2]) (simp add: l2_def)
qed

text \<open>
  C7, as the claim states it, fails for five substitutes. On a hash engine over the
  test suite's window at \<open>/\<close>, with the substitute \<open>%\<close> the second push throws a
  URIError (the window's hash is then \<open>#/foo%bar\<close>, which \<open>decodeURIComponent\<close>
  refuses); with the substitute \<open>/\<close> both pushes return and the location read back
  has the hash \<open>#/bar\<close>; with a tab, a line feed or a carriage return as the
  substitute it has no hash.
\<close>

theorem hash_substitute_lost_counterexample:
  "utf8_character ''%'' \<and> utf8_character ''/'' \<and> utf8_character [CHR 0x09]
   \<and> round_trip ''%'' test_surface = Inl URIError_malformed
   \<and> map_sum id (\<lambda>h. hash (location h)) (round_trip ''/'' test_surface) = Inr ''#/bar''
   \<and> map_sum id (\<lambda>h. hash (location h)) (round_trip [CHR 0x09] test_surface) = Inr []
   \<and> map_sum id (\<lambda>h. hash (location h)) (round_trip [CHR 0x0A] test_surface) = Inr []
   \<and> map_sum id (\<lambda>h. hash (location h)) (round_trip [CHR 0x0D] test_surface) = Inr []"
  by code_simp

text \<open>
  C7, amended. \<open>d\<close> are the methods of a hash engine made by \<open>createHashHistory\<close> with a
  substitute that is one character other than \<open>/\<close>, \<open>%\<close>, tab, line feed and
  carriage return, and \<open>h\<close> is a state of the engine whose window has the cursor on
  an entry and ends in an entry that holds a readable URL, with a hierarchical path or
  an opaque one.
  Then \<open>push('/foo')\<close> and \<open>push('#bar')\<close> return normally. After the first the
  window's hash is \<open>#/foo\<close>; after the second it is \<open>#\<close>, the path of the location,
  the substitute as the window's URL parser escapes it, and \<open>bar\<close>: the inner fragment
  follows the substitute where \<open>#\<close> would stand. The location that the driver reads
  back from the window is the engine's; its hash is \<open>#bar\<close> and its path the one before
  the second push, which is \<open>/foo\<close> unless the substitute is \<open>f\<close> or \<open>o\<close>.
\<close>

theorem hash_substitute_round_trip:
  assumes mk: "createHashHistory (Some s) w0 = Inr (d, h0)"
      and ch: "utf8_character s" and ok: "\<not> lost_substitute s"
      and valid: "index (window h) < length (entries (window h))"
      and surf: "is_url_entry (last (entries (window h)))"
  shows "\<exists>h1 h2.
           push d ''/foo'' st1 h = (h1, None)
         \<and> location_hash (window h1) = Inr ''#/foo''
         \<and> push d ''#bar'' st2 h1 = (h2, None)
         \<and> location_hash (window h2)
             = Inr (CHR ''#'' # path (location h1) @ utf8_percent_encode fragment_set s @ ''bar'')
         \<and> getLocation d (ref (location h2)) (window h2) = Inr (location h2)
         \<and> hash (location h2) = ''#bar''
         \<and> path (location h2) = path (location h1)
         \<and> (\<not> occurs s ''/foo'' \<longrightarrow>
              location h2 = \<lparr>ref = next_ref h + 1, href = ''/foo#bar'', path = ''/foo'',
                               search = [], hash = ''#bar'', state = st2\<rparr>)"
proof -
  from createHashHistory_methods[OF mk] have d: "d = hash_driver s" .
  from first_location[OF ch ok, of "next_ref h" st1] obtain x p where
    cl: "createLocation (next_ref h) (replace_first s ''#'' ''/foo'') st1
           = Inr \<lparr>ref = next_ref h, href = x, path = p, search = [], hash = drop (length p) x,
                  state = st1\<rparr>"
    and xp: "x = ''/foo'' \<and> p = ''/foo'' \<or> x = ''/f#o'' \<and> p = ''/f'' \<or> x = ''/#oo'' \<and> p = ''/''"
    and nd: "hd s \<notin> set p" and po: "\<not> occurs s ''/foo'' \<longrightarrow> p = ''/foo''"
    by blast
  define l1 where "l1 = \<lparr>ref = next_ref h, href = x, path = p, search = [],
                           hash = drop (length p) x, state = st1\<rparr>"
  from hash_push_foo[OF valid surf cl[folded l1_def]] obtain b where
    b: "readable b"
    and pf: "push (hash_driver s) ''/foo'' st1 h =
             (h\<lparr>window := (window h)
                    \<lparr>entries := take (index (window h) + 1) (entries (window h))
                       @ [Some (Url (b\<lparr>url_fragment := Some ''/foo''\<rparr>), st1)],
                      index := index (window h) + 1\<rparr>,
                location := l1, from_location := Some (location h),
                next_ref := next_ref h + 1,
                notified := notified h
                  @ map (\<lambda>x. (x, \<lparr>change_action = PUSH, change_location = l1,
                                   change_from = Some (location h)\<rparr>)) (listeners h)\<rparr>, None)"
    by blast
  define w1 where "w1 = (window h)
                    \<lparr>entries := take (index (window h) + 1) (entries (window h))
                       @ [Some (Url (b\<lparr>url_fragment := Some ''/foo''\<rparr>), st1)],
                      index := index (window h) + 1\<rparr>"
  define h1 where "h1 = h\<lparr>window := w1, location := l1, from_location := Some (location h),
                next_ref := next_ref h + 1,
                notified := notified h
                  @ map (\<lambda>x. (x, \<lparr>change_action = PUSH, change_location = l1,
                                   change_from = Some (location h)\<rparr>)) (listeners h)\<rparr>"
  have p1: "push d ''/foo'' st1 h = (h1, None)"
    unfolding h1_def w1_def d by (rule pf)
  have sel: "window h1 = w1" "location h1 = l1" "next_ref h1 = next_ref h + 1"
    by (simp_all add: h1_def)
  have cur: "array_get (entries w1) (index w1) = Some (Url (b\<lparr>url_fragment := Some ''/foo''\<rparr>), st1)"
    using pushed_entry(1)[OF valid] by (simp add: w1_def)
  have lh1: "location_hash w1 = Inr ''#/foo''"
    by (simp add: location_hash_def entry_location_at_def cur url_hash_def)
  have v1: "index (window h1) < length (entries (window h1))"
    using pushed_entry(4)[OF valid] by (simp add: sel w1_def)
  have s1: "is_url_entry (last (entries (window h1)))"
    using b by (simp add: sel w1_def readable_fragment)
  have l: "href (location h1) = ''/foo'' \<and> p = ''/foo'' \<or> href (location h1) = ''/f#o'' \<and> p = ''/f''
            \<or> href (location h1) = ''/#oo'' \<and> p = ''/''"
    using xp by (simp add: sel l1_def)
  from hash_push_bar[OF v1 s1 ch ok l nd, of st2] obtain h2 where
    p2: "push (hash_driver s) ''#bar'' st2 h1 = (h2, None)"
    and lh2: "location_hash (window h2)
               = Inr (CHR ''#'' # p @ utf8_percent_encode fragment_set s @ ''bar'')"
    and l2: "location h2 = \<lparr>ref = next_ref h1, href = p @ ''#bar'', path = p, search = [],
                              hash = ''#bar'', state = st2\<rparr>"
    and g2: "getLocation (hash_driver s) (next_ref h1) (window h2) = Inr (location h2)"
    by blast
  have pl: "path (location h1) = p" by (simp add: sel l1_def)
  have r2: "ref (location h2) = next_ref h1" by (simp add: l2)
  have last: "\<not> occurs s ''/foo'' \<longrightarrow>
              location h2 = \<lparr>ref = next_ref h + 1, href = ''/foo#bar'', path = ''/foo'',
                               search = [], hash = ''#bar'', state = st2\<rparr>"
    using po by (simp add: l2 sel)
  have "push d ''/foo'' st1 h = (h1, None)
         \<and> location_hash (window h1) = Inr ''#/foo''
         \<and> push d ''#bar'' st2 h1 = (h2, None)
         \<and> location_hash (window h2)
             = Inr (CHR ''#'' # path (location h1) @ utf8_percent_encode fragment_set s @ ''bar'')
         \<and> getLocation d (ref (location h2)) (window h2) = Inr (location h2)
         \<and> hash (location h2) = ''#bar''
         \<and> path (location h2) = path (location h1)
         \<and> (\<not> occurs s ''/foo'' \<longrightarrow>
              location h2 = \<lparr>ref = next_ref h + 1, href = ''/foo#bar'', path = ''/foo'',
                               search = [], hash = ''#bar'', state = st2\<rparr>)"
    using p1 lh1 p2 lh2 g2 last by (simp add: d sel(1) pl r2) (simp add: l2)
  then show ?thesis by blast
qed

theorem hash_substitute_round_trip_witness:
  "createHashHistory (Some custom_substitute) test_surface = Inr (custom_methods, hash_engine_0)
   \<and> utf8_character custom_substitute \<and> \<not> lost_substitute custom_substitute
   \<and> index (window hash_engine_0) < length (entries (window hash_engine_0))
   \<and> is_url_entry (last (entries (window hash_engine_0)))
   \<and> push custom_methods ''/foo'' Undefined hash_engine_0 = (hash_engine_1, None)
   \<and> push custom_methods ''#bar'' Undefined hash_engine_1 = (hash_engine_2, None)
   \<and> location_hash (window hash_engine_2) = Inr ''#/foo%E2%86%88bar''
   \<and> getLocation custom_methods 2 (window hash_engine_2) = Inr (location hash_engine_2)
   \<and> location hash_engine_2
       = \<lparr>ref = 2, href = ''/foo#bar'', path = ''/foo'', search = [], hash = ''#bar'',
          state = Undefined\<rparr>"
proof -
  have "case createHashHistory (Some custom_substitute) test_surface of
          Inl x \<Rightarrow> False | Inr x \<Rightarrow> True" by code_simp
  then have m: "createHashHistory (Some custom_substitute) test_surface
                  = Inr (custom_methods, hash_engine_0)"
    by (cases "createHashHistory (Some custom_substitute) test_surface")
       (simp_all add: custom_methods_def hash_engine_0_def)
  have c: "utf8_character custom_substitute" by code_simp
  have k: "\<not> lost_substitute custom_substitute" by code_simp
  have v: "index (window hash_engine_0) < length (entries (window hash_engine_0))" by code_simp
  have u: "is_url_entry (last (entries (window hash_engine_0)))" by code_simp
  have o: "\<not> occurs custom_substitute ''/foo''" by code_simp
  have n: "next_ref hash_engine_0 = 1" by code_simp
  have e: "utf8_percent_encode fragment_set custom_substitute = ''%E2%86%88''" by code_simp
  from hash_substitute_round_trip[OF m c k v u, of Undefined Undefined] o obtain h1 h2 where
    p1: "push custom_methods ''/foo'' Undefined hash_engine_0 = (h1, None)"
    and p2: "push custom_methods ''#bar'' Undefined h1 = (h2, None)"
    and lh: "location_hash (window h2)
             = Inr (CHR ''#'' # path (location h1)
                    @ utf8_percent_encode fragment_set custom_substitute @ ''bar'')"
    and g: "getLocation custom_methods (ref (location h2)) (window h2) = Inr (location h2)"
    and pp: "path (location h2) = path (location h1)"
    and l2: "location h2 = \<lparr>ref = next_ref hash_engine_0 + 1, href = ''/foo#bar'',
                              path = ''/foo'', search = [], hash = ''#bar'', state = Undefined\<rparr>"
    by blast
  from p1 have h1: "hash_engine_1 = h1" by (simp add: hash_engine_1_def)
  from p2 have h2: "hash_engine_2 = h2" by (simp add: hash_engine_2_def h1)
  from pp l2 have "path (location h1) = ''/foo''" by simp
  with lh have lh': "location_hash (window h2) = Inr ''#/foo%E2%86%88bar''"
    by (simp add: e)
  from l2 n have l2': "location h2 = \<lparr>ref = 2, href = ''/foo#bar'',
                              path = ''/foo'', search = [], hash = ''#bar'', state = Undefined\<rparr>"
    by simp
  from g l2' have g': "getLocation custom_methods 2 (window h2) = Inr (location h2)" by simp
  from m c k v u p1 p2 lh' g' l2' show ?thesis
    by (simp add: h1 h2)
qed

end
